theory Spec2Isabelle
  imports Complex_Main "HOL-Library.Multiset" "HOL-Library.Sublist"
begin

section \<open>Data model of the exchange (src/exchange.py)\<close>

text \<open>
  An order is the dictionary
  \<open>{'username', 'side', 'symbol', 'price', 'quantity'}\<close> of the source. The side is kept as
  the string the source compares with \<open>"BUY"\<close>; the quantity is a Python integer. The
  price is a number: this first embedding is the engine on orders whose price is a number,
  where \<open><=\<close> and \<open>>=\<close> on prices are a linear order and only the order and the equality
  of prices are used. A price that is the float NaN is the subject of the second embedding
  further down.
\<close>

record order_rec =
  username :: string
  side :: string
  symbol :: string
  price :: real
  quantity :: int

text \<open>The dictionary \<open>trade_info\<close> built in \<open>on_order_received\<close>.\<close>

record trade =
  trade_symbol :: string
  buyer :: string
  seller :: string
  trade_price :: real
  trade_quantity :: int

text \<open>One entry of \<open>order_books\<close>: \<open>{'buy': [...], 'sell': [...]}\<close>.\<close>

record book =
  buy :: "order_rec list"
  sell :: "order_rec list"

type_synonym order_books = "string \<rightharpoonup> book"

text \<open>The exceptions the operations used by \<open>on_order_received\<close> can raise.\<close>

datatype error = KeyError | ValueError | IndexError

section \<open>List operations of Python used by the engine\<close>

text \<open>\<open>list.index(x)\<close>: position of the first element equal to \<open>x\<close>, ValueError if none.\<close>

fun index_of :: "'a list \<Rightarrow> 'a \<Rightarrow> error + nat" where
  "index_of [] y = Inl ValueError"
| "index_of (x # xs) y =
     (if x = y then Inr 0
      else (case index_of xs y of Inl e \<Rightarrow> Inl e | Inr i \<Rightarrow> Inr (Suc i)))"

text \<open>\<open>list.pop(i)\<close> for a non-negative index: the list without position \<open>i\<close>,
  IndexError out of range.\<close>

definition pop :: "'a list \<Rightarrow> nat \<Rightarrow> error + 'a list" where
  "pop xs i = (if i < length xs then Inr (take i xs @ drop (Suc i) xs) else Inl IndexError)"

text \<open>
  \<open>sorted(orders, key=price)\<close> and \<open>sorted(orders, key=price, reverse=True)\<close> on prices
  that are numbers. There Python's sort is stable, also under \<open>reverse=True\<close> (elements are
  ordered as if every comparison were reversed, equal keys keep their original order), which
  is \<^const>\<open>sort_key\<close> on the negated key. With a NaN among the keys the result is
  another one: see \<open>py_sorted\<close> in the second embedding.
\<close>

definition sort_asc :: "order_rec list \<Rightarrow> order_rec list" where
  "sort_asc orders = sort_key price orders"

definition sort_desc :: "order_rec list \<Rightarrow> order_rec list" where
  "sort_desc orders = sort_key (\<lambda>x. - price x) orders"

section \<open>Exchange\<close>

definition init_symbol_if_needed :: "order_books \<Rightarrow> string \<Rightarrow> order_books" where
  "init_symbol_if_needed obs symb =
     (if symb \<notin> dom obs then obs(symb \<mapsto> \<lparr>buy = [], sell = []\<rparr>) else obs)"

text \<open>The two local functions chosen by the \<open>if side == "BUY"\<close> of the source.\<close>

definition match_condition :: "string \<Rightarrow> real \<Rightarrow> real \<Rightarrow> bool" where
  "match_condition sd opposite_price my_price =
     (if sd = ''BUY'' then opposite_price \<le> my_price else opposite_price \<ge> my_price)"

definition sort_opposite :: "string \<Rightarrow> order_rec list \<Rightarrow> order_rec list" where
  "sort_opposite sd orders = (if sd = ''BUY'' then sort_asc orders else sort_desc orders)"

definition trade_info :: "string \<Rightarrow> string \<Rightarrow> string \<Rightarrow> order_rec \<Rightarrow> int \<Rightarrow> trade" where
  "trade_info symb sd usr opp_order trade_qty =
     \<lparr>trade_symbol = symb,
      buyer = (if sd = ''BUY'' then usr else username opp_order),
      seller = (if sd = ''BUY'' then username opp_order else usr),
      trade_price = price opp_order,
      trade_quantity = trade_qty\<rparr>"

text \<open>
  The \<open>while remaining_qty > 0 and matched and len(opposite_list) > 0\<close> loop. One call is
  one test of the loop condition followed by one run of the body; the inner \<open>for\<close> with its
  \<open>break\<close> is the search for the first order of the sorted list that meets the match
  condition. The sorted list holds the same dictionaries as \<open>opposite_list\<close>, so the
  assignment to \<open>opp_order["quantity"]\<close> changes the entry of \<open>opposite_list\<close>; that entry
  is the first one equal to \<open>opp_order\<close> (the stable sort puts the earliest of the orders
  with the best price first), that is the one at \<open>original_index\<close>.
\<close>

function match_loop ::
  "string \<Rightarrow> string \<Rightarrow> string \<Rightarrow> real \<Rightarrow> order_rec list \<Rightarrow> int \<Rightarrow> bool \<Rightarrow> trade list
     \<Rightarrow> error + (order_rec list \<times> int \<times> trade list)" where
  "match_loop symb sd usr prc opposite_list remaining_qty matched trades =
     (if remaining_qty > 0 \<and> matched \<and> length opposite_list > 0 then
        (case find (\<lambda>opp_order. match_condition sd (price opp_order) prc)
                (sort_opposite sd opposite_list) of
           None \<Rightarrow> match_loop symb sd usr prc opposite_list remaining_qty False trades
         | Some opp_order \<Rightarrow>
            (case index_of opposite_list opp_order of
               Inl e \<Rightarrow> Inl e
             | Inr original_index \<Rightarrow>
                 if quantity opp_order = remaining_qty then
                   (case pop opposite_list original_index of
                      Inl e \<Rightarrow> Inl e
                    | Inr popped \<Rightarrow>
                        match_loop symb sd usr prc popped 0 True
                          (trades @ [trade_info symb sd usr opp_order remaining_qty]))
                 else if quantity opp_order > remaining_qty then
                   match_loop symb sd usr prc
                     (opposite_list[original_index :=
                        opp_order\<lparr>quantity := quantity opp_order - remaining_qty\<rparr>])
                     0 True (trades @ [trade_info symb sd usr opp_order remaining_qty])
                 else
                   (case pop opposite_list original_index of
                      Inl e \<Rightarrow> Inl e
                    | Inr popped \<Rightarrow>
                        match_loop symb sd usr prc popped (remaining_qty - quantity opp_order) True
                          (trades @ [trade_info symb sd usr opp_order (quantity opp_order)]))))
      else Inr (opposite_list, remaining_qty, trades))"
  by pat_completeness auto

termination
proof (relation "measure (\<lambda>(symb, sd, usr, prc, opp, rem, matched, trades).
          if rem > 0 \<and> matched \<and> opp \<noteq> [] then Suc (length opp) else 0)")
qed (auto simp: pop_def split: if_splits)

declare match_loop.simps [simp del]

text \<open>The residual order appended to the same side and the sort that follows.\<close>

definition new_order :: "order_rec \<Rightarrow> int \<Rightarrow> order_rec" where
  "new_order ord remaining_qty =
     \<lparr>username = username ord, side = side ord, symbol = symbol ord,
      price = price ord, quantity = remaining_qty\<rparr>"

definition rest_order :: "string \<Rightarrow> order_rec list \<Rightarrow> order_rec \<Rightarrow> order_rec list" where
  "rest_order sd same_side_list ord' =
     (if sd = ''BUY'' then sort_desc (same_side_list @ [ord'])
      else sort_asc (same_side_list @ [ord']))"

definition on_order_received ::
  "order_books \<Rightarrow> order_rec \<Rightarrow> error + (order_books \<times> trade list)" where
  "on_order_received order_books ord =
     (let obs = init_symbol_if_needed order_books (symbol ord) in
      case obs (symbol ord) of
        None \<Rightarrow> Inl KeyError
      | Some bk \<Rightarrow>
          let opposite_list = (if side ord = ''BUY'' then sell bk else buy bk);
              same_side_list = (if side ord = ''BUY'' then buy bk else sell bk)
          in case match_loop (symbol ord) (side ord) (username ord) (price ord)
                    opposite_list (quantity ord) True [] of
               Inl e \<Rightarrow> Inl e
             | Inr (opposite_list', remaining_qty, trades) \<Rightarrow>
                 let same_side_list' =
                       (if remaining_qty > 0
                        then rest_order (side ord) same_side_list (new_order ord remaining_qty)
                        else same_side_list)
                 in Inr (obs(symbol ord \<mapsto>
                           (if side ord = ''BUY''
                            then \<lparr>buy = same_side_list', sell = opposite_list'\<rparr>
                            else \<lparr>buy = opposite_list', sell = same_side_list'\<rparr>)),
                         trades))"

text \<open>
  The consumer of \<open>main\<close>: one exchange instance receives the orders of the queue one
  after the other, and the trades of each are published in order.
\<close>

fun consume :: "order_books \<Rightarrow> order_rec list \<Rightarrow> error + (order_books \<times> trade list)" where
  "consume obs [] = Inr (obs, [])"
| "consume obs (ord # ords) =
     (case on_order_received obs ord of
        Inl e \<Rightarrow> Inl e
      | Inr (obs', ts) \<Rightarrow>
          (case consume obs' ords of
             Inl e \<Rightarrow> Inl e
           | Inr (obs'', ts') \<Rightarrow> Inr (obs'', ts @ ts')))"

text \<open>The states of the registry reachable from the empty one by processing orders.\<close>

inductive reachable :: "order_books \<Rightarrow> bool" where
  reachable_init: "reachable Map.empty"
| reachable_step:
    "reachable obs \<Longrightarrow> on_order_received obs ord = Inr (obs', ts) \<Longrightarrow> reachable obs'"

text \<open>The order the inner \<open>for\<close> loop stops at, if any.\<close>

abbreviation crossing :: "string \<Rightarrow> real \<Rightarrow> order_rec list \<Rightarrow> order_rec option" where
  "crossing sd prc opp \<equiv>
     find (\<lambda>opp_order. match_condition sd (price opp_order) prc) (sort_opposite sd opp)"

section \<open>The engine on Python floats, NaN included\<close>

text \<open>
  The definitions above take the price of an order to be a number. A price is a Python
  \<open>float\<close>, and the decoder of the order message also yields \<open>float('nan')\<close>, for which
  every comparison is false: then \<open><=\<close> and \<open>>=\<close> are no linear order and \<open>sorted\<close>
  does not sort. This second embedding of \<open>on_order_received\<close> is the same code over
  floats that may be NaN, with the sort as CPython runs it. (The infinities are ordered
  like numbers and are not distinguished from them.)
\<close>

datatype pyfloat = Num real | NaN

fun float_lt :: "pyfloat \<Rightarrow> pyfloat \<Rightarrow> bool" where
  "float_lt (Num x) (Num y) = (x < y)"
| "float_lt _ _ = False"

fun float_le :: "pyfloat \<Rightarrow> pyfloat \<Rightarrow> bool" where
  "float_le (Num x) (Num y) = (x \<le> y)"
| "float_le _ _ = False"

record order_f =
  username_f :: string
  side_f :: string
  symbol_f :: string
  price_f :: pyfloat
  quantity_f :: int

record trade_f =
  trade_symbol_f :: string
  buyer_f :: string
  seller_f :: string
  trade_price_f :: pyfloat
  trade_quantity_f :: int

record book_f =
  buy_f :: "order_f list"
  sell_f :: "order_f list"

type_synonym order_books_f = "string \<rightharpoonup> book_f"

text \<open>
  \<open>list.sort\<close> and \<open>sorted\<close> of CPython on a list of fewer than 64 elements, where no
  runs are merged: the length of the initial run is counted (a run that does not descend,
  or a strictly descending one, which is reversed), and every further element is put into
  the run by binary insertion. Only \<open><\<close> is asked of two keys. On keys that \<open><\<close> orders
  linearly this is the stable sort, for a list of any length (proved below); on keys with
  a NaN it is what the interpreter does with a list of fewer than 64 elements.
\<close>

fun run_asc :: "('a \<Rightarrow> 'a \<Rightarrow> bool) \<Rightarrow> 'a \<Rightarrow> 'a list \<Rightarrow> nat" where
  "run_asc lt prev [] = 0"
| "run_asc lt prev (x # xs) = (if lt x prev then 0 else Suc (run_asc lt x xs))"

fun run_desc :: "('a \<Rightarrow> 'a \<Rightarrow> bool) \<Rightarrow> 'a \<Rightarrow> 'a list \<Rightarrow> nat" where
  "run_desc lt prev [] = 0"
| "run_desc lt prev (x # xs) = (if lt x prev then Suc (run_desc lt x xs) else 0)"

text \<open>The binary search of the insertion: \<open>p\<close> stays below \<open>r\<close>, which is at most the
  length of the list, so the read is in range.\<close>

function bisect :: "('a \<Rightarrow> 'a \<Rightarrow> bool) \<Rightarrow> 'a \<Rightarrow> 'a list \<Rightarrow> nat \<Rightarrow> nat \<Rightarrow> nat" where
  "bisect lt pivot xs l r =
     (if l < r then
        (let p = l + (r - l) div 2 in
         if lt pivot (xs ! p) then bisect lt pivot xs l p else bisect lt pivot xs (p + 1) r)
      else l)"
  by pat_completeness auto

termination
proof (relation "measure (\<lambda>(lt, pivot, xs, l, r). r - l)")
qed auto

declare bisect.simps [simp del]

definition binary_insert :: "('a \<Rightarrow> 'a \<Rightarrow> bool) \<Rightarrow> 'a list \<Rightarrow> 'a \<Rightarrow> 'a list" where
  "binary_insert lt xs pivot =
     (let l = bisect lt pivot xs 0 (length xs) in take l xs @ pivot # drop l xs)"

definition list_sort :: "('a \<Rightarrow> 'a \<Rightarrow> bool) \<Rightarrow> 'a list \<Rightarrow> 'a list" where
  "list_sort lt xs =
     (case xs of
        [] \<Rightarrow> []
      | x # rest \<Rightarrow>
          let descending = (case rest of [] \<Rightarrow> False | y # _ \<Rightarrow> lt y x);
              n = Suc (if descending then run_desc lt x rest else run_asc lt x rest);
              run = (if descending then rev (take n xs) else take n xs)
          in foldl (binary_insert lt) run (drop n xs))"

text \<open>\<open>sorted(xs, key=key, reverse=reverse)\<close>: with \<open>reverse\<close> the list is reversed,
  sorted and reversed again.\<close>

definition py_sorted :: "('a \<Rightarrow> pyfloat) \<Rightarrow> bool \<Rightarrow> 'a list \<Rightarrow> 'a list" where
  "py_sorted key reverse xs =
     (if reverse then rev (list_sort (\<lambda>a b. float_lt (key a) (key b)) (rev xs))
      else list_sort (\<lambda>a b. float_lt (key a) (key b)) xs)"

definition init_symbol_if_needed_f :: "order_books_f \<Rightarrow> string \<Rightarrow> order_books_f" where
  "init_symbol_if_needed_f obs symb =
     (if symb \<notin> dom obs then obs(symb \<mapsto> \<lparr>buy_f = [], sell_f = []\<rparr>) else obs)"

definition match_condition_f :: "string \<Rightarrow> pyfloat \<Rightarrow> pyfloat \<Rightarrow> bool" where
  "match_condition_f sd opposite_price my_price =
     (if sd = ''BUY'' then float_le opposite_price my_price
      else float_le my_price opposite_price)"

text \<open>The sorted copy holds the dictionaries of \<open>opposite_list\<close> themselves; each is
  paired with its position in \<open>opposite_list\<close>, which tells the dictionaries apart.\<close>

definition sort_opposite_f :: "string \<Rightarrow> (nat \<times> order_f) list \<Rightarrow> (nat \<times> order_f) list" where
  "sort_opposite_f sd orders = py_sorted (\<lambda>x. price_f (snd x)) (sd \<noteq> ''BUY'') orders"

definition trade_info_f :: "string \<Rightarrow> string \<Rightarrow> string \<Rightarrow> order_f \<Rightarrow> int \<Rightarrow> trade_f" where
  "trade_info_f symb sd usr opp_order trade_qty =
     \<lparr>trade_symbol_f = symb,
      buyer_f = (if sd = ''BUY'' then usr else username_f opp_order),
      seller_f = (if sd = ''BUY'' then username_f opp_order else usr),
      trade_price_f = price_f opp_order,
      trade_quantity_f = trade_qty\<rparr>"

text \<open>
  The loop. \<open>index\<close> finds the first dictionary equal to \<open>opp_order\<close>; a matched order
  has a price that is not NaN, so equality of dictionaries is equality of the five fields.
  The assignment to \<open>opp_order["quantity"]\<close> changes the matched dictionary itself, at its
  own position \<open>pos\<close>.
\<close>

function match_loop_f ::
  "string \<Rightarrow> string \<Rightarrow> string \<Rightarrow> pyfloat \<Rightarrow> order_f list \<Rightarrow> int \<Rightarrow> bool \<Rightarrow> trade_f list
     \<Rightarrow> error + (order_f list \<times> int \<times> trade_f list)" where
  "match_loop_f symb sd usr prc opposite_list remaining_qty matched trades =
     (if remaining_qty > 0 \<and> matched \<and> length opposite_list > 0 then
        (case find (\<lambda>entry. match_condition_f sd (price_f (snd entry)) prc)
                (sort_opposite_f sd (enumerate 0 opposite_list)) of
           None \<Rightarrow> match_loop_f symb sd usr prc opposite_list remaining_qty False trades
         | Some entry \<Rightarrow>
            (case index_of opposite_list (snd entry) of
               Inl e \<Rightarrow> Inl e
             | Inr original_index \<Rightarrow>
                 if quantity_f (snd entry) = remaining_qty then
                   (case pop opposite_list original_index of
                      Inl e \<Rightarrow> Inl e
                    | Inr popped \<Rightarrow>
                        match_loop_f symb sd usr prc popped 0 True
                          (trades @ [trade_info_f symb sd usr (snd entry) remaining_qty]))
                 else if quantity_f (snd entry) > remaining_qty then
                   match_loop_f symb sd usr prc
                     (opposite_list[fst entry :=
                        (snd entry)\<lparr>quantity_f := quantity_f (snd entry) - remaining_qty\<rparr>])
                     0 True (trades @ [trade_info_f symb sd usr (snd entry) remaining_qty])
                 else
                   (case pop opposite_list original_index of
                      Inl e \<Rightarrow> Inl e
                    | Inr popped \<Rightarrow>
                        match_loop_f symb sd usr prc popped
                          (remaining_qty - quantity_f (snd entry)) True
                          (trades @ [trade_info_f symb sd usr (snd entry)
                                       (quantity_f (snd entry))]))))
      else Inr (opposite_list, remaining_qty, trades))"
  by pat_completeness auto

termination
proof (relation "measure (\<lambda>(symb, sd, usr, prc, opp, rem, matched, trades).
          if rem > 0 \<and> matched \<and> opp \<noteq> [] then Suc (length opp) else 0)")
qed (auto simp: pop_def split: if_splits)

declare match_loop_f.simps [simp del]

text \<open>The entry the inner \<open>for\<close> loop stops at, if any, with its position.\<close>

abbreviation crossing_f :: "string \<Rightarrow> pyfloat \<Rightarrow> order_f list \<Rightarrow> (nat \<times> order_f) option" where
  "crossing_f sd prc opp \<equiv>
     find (\<lambda>e. match_condition_f sd (price_f (snd e)) prc)
       (sort_opposite_f sd (enumerate 0 opp))"

definition new_order_f :: "order_f \<Rightarrow> int \<Rightarrow> order_f" where
  "new_order_f ord remaining_qty =
     \<lparr>username_f = username_f ord, side_f = side_f ord, symbol_f = symbol_f ord,
      price_f = price_f ord, quantity_f = remaining_qty\<rparr>"

definition rest_order_f :: "string \<Rightarrow> order_f list \<Rightarrow> order_f \<Rightarrow> order_f list" where
  "rest_order_f sd same_side_list ord' = py_sorted price_f (sd = ''BUY'') (same_side_list @ [ord'])"

definition on_order_received_f ::
  "order_books_f \<Rightarrow> order_f \<Rightarrow> error + (order_books_f \<times> trade_f list)" where
  "on_order_received_f order_books ord =
     (let obs = init_symbol_if_needed_f order_books (symbol_f ord) in
      case obs (symbol_f ord) of
        None \<Rightarrow> Inl KeyError
      | Some bk \<Rightarrow>
          let opposite_list = (if side_f ord = ''BUY'' then sell_f bk else buy_f bk);
              same_side_list = (if side_f ord = ''BUY'' then buy_f bk else sell_f bk)
          in case match_loop_f (symbol_f ord) (side_f ord) (username_f ord) (price_f ord)
                    opposite_list (quantity_f ord) True [] of
               Inl e \<Rightarrow> Inl e
             | Inr (opposite_list', remaining_qty, trades) \<Rightarrow>
                 let same_side_list' =
                       (if remaining_qty > 0
                        then rest_order_f (side_f ord) same_side_list
                               (new_order_f ord remaining_qty)
                        else same_side_list)
                 in Inr (obs(symbol_f ord \<mapsto>
                           (if side_f ord = ''BUY''
                            then \<lparr>buy_f = same_side_list', sell_f = opposite_list'\<rparr>
                            else \<lparr>buy_f = opposite_list', sell_f = same_side_list'\<rparr>)),
                         trades))"

fun consume_f ::
  "order_books_f \<Rightarrow> order_f list \<Rightarrow> error + (order_books_f \<times> trade_f list)" where
  "consume_f obs [] = Inr (obs, [])"
| "consume_f obs (ord # ords) =
     (case on_order_received_f obs ord of
        Inl e \<Rightarrow> Inl e
      | Inr (obs', ts) \<Rightarrow>
          (case consume_f obs' ords of
             Inl e \<Rightarrow> Inl e
           | Inr (obs'', ts') \<Rightarrow> Inr (obs'', ts @ ts')))"

text \<open>
  The first embedding inside the second: an order with a numeric price as an order with a
  float price, and likewise trades, books and registries.
\<close>

fun num_of :: "pyfloat \<Rightarrow> real" where
  "num_of (Num r) = r"
| "num_of NaN = 0"

definition to_f :: "order_rec \<Rightarrow> order_f" where
  "to_f ord = \<lparr>username_f = username ord, side_f = side ord, symbol_f = symbol ord,
               price_f = Num (price ord), quantity_f = quantity ord\<rparr>"

definition trade_to_f :: "trade \<Rightarrow> trade_f" where
  "trade_to_f t = \<lparr>trade_symbol_f = trade_symbol t, buyer_f = buyer t, seller_f = seller t,
                   trade_price_f = Num (trade_price t), trade_quantity_f = trade_quantity t\<rparr>"

definition book_to_f :: "book \<Rightarrow> book_f" where
  "book_to_f bk = \<lparr>buy_f = map to_f (buy bk), sell_f = map to_f (sell bk)\<rparr>"

definition books_to_f :: "order_books \<Rightarrow> order_books_f" where
  "books_to_f obs = (\<lambda>symb. map_option book_to_f (obs symb))"

section \<open>Observers used to state the properties\<close>

text \<open>The book of a symbol as \<open>on_order_received\<close> sees it after
  \<open>_init_symbol_if_needed\<close>: the registered book, or the empty one.\<close>

definition book_of :: "order_books \<Rightarrow> string \<Rightarrow> book" where
  "book_of obs symb = (case obs symb of None \<Rightarrow> \<lparr>buy = [], sell = []\<rparr> | Some bk \<Rightarrow> bk)"

text \<open>\<open>opposite_list\<close> and \<open>same_side_list\<close> of an order in a registry.\<close>

definition opposite_side :: "order_books \<Rightarrow> order_rec \<Rightarrow> order_rec list" where
  "opposite_side obs ord =
     (if side ord = ''BUY'' then sell (book_of obs (symbol ord))
      else buy (book_of obs (symbol ord)))"

definition same_side :: "order_books \<Rightarrow> order_rec \<Rightarrow> order_rec list" where
  "same_side obs ord =
     (if side ord = ''BUY'' then buy (book_of obs (symbol ord))
      else sell (book_of obs (symbol ord)))"

text \<open>What identifies a resting order while its quantity is decremented in place.\<close>

definition order_key :: "order_rec \<Rightarrow> string \<times> string \<times> string \<times> real" where
  "order_key ord = (username ord, side ord, symbol ord, price ord)"

text \<open>The order of a book: buy list by descending price, sell list by ascending price.\<close>

definition ordered_book :: "book \<Rightarrow> bool" where
  "ordered_book bk \<longleftrightarrow>
     sorted_wrt (\<lambda>a b. price a \<ge> price b) (buy bk) \<and>
     sorted_wrt (\<lambda>a b. price a \<le> price b) (sell bk)"

text \<open>A book is not crossed: every resting buy price is below every resting sell price.\<close>

definition no_cross :: "book \<Rightarrow> bool" where
  "no_cross bk = (\<forall>b\<in>set (buy bk). \<forall>a\<in>set (sell bk). price b < price a)"

text \<open>Quantities: resting on one side of a symbol's book, submitted on one side of a symbol
  by a sequence of orders, and traded in a symbol.\<close>

definition total_quantity :: "order_rec list \<Rightarrow> int" where
  "total_quantity xs = sum_list (map quantity xs)"

definition resting :: "order_books \<Rightarrow> string \<Rightarrow> string \<Rightarrow> int" where
  "resting obs symb sd =
     total_quantity (if sd = ''BUY'' then buy (book_of obs symb) else sell (book_of obs symb))"

definition submitted :: "order_rec list \<Rightarrow> string \<Rightarrow> string \<Rightarrow> int" where
  "submitted ords symb sd =
     total_quantity (filter (\<lambda>ord. symbol ord = symb \<and> side ord = sd) ords)"

definition traded :: "trade list \<Rightarrow> string \<Rightarrow> int" where
  "traded ts symb = sum_list (map trade_quantity (filter (\<lambda>t. trade_symbol t = symb) ts))"

text \<open>The precondition of the specification on an inbound order.\<close>

definition valid_order :: "order_rec \<Rightarrow> bool" where
  "valid_order ord \<longleftrightarrow>
     quantity ord > 0 \<and> price ord > 0 \<and> (side ord = ''BUY'' \<or> side ord = ''SELL'')"

text \<open>Every resting order has a positive quantity.\<close>

definition positive_books :: "order_books \<Rightarrow> bool" where
  "positive_books obs =
     (\<forall>s. \<forall>x\<in>set (buy (book_of obs s)) \<union> set (sell (book_of obs s)). quantity x > 0)"

section \<open>Example orders and registries\<close>

definition alice_sell :: order_rec where
  "alice_sell = \<lparr>username = ''alice'', side = ''SELL'', symbol = ''AAPL'', price = 100, quantity = 5\<rparr>"

definition bob_sell :: order_rec where
  "bob_sell = \<lparr>username = ''bob'', side = ''SELL'', symbol = ''AAPL'', price = 100, quantity = 5\<rparr>"

definition carol_buy :: order_rec where
  "carol_buy = \<lparr>username = ''carol'', side = ''BUY'', symbol = ''AAPL'', price = 101, quantity = 7\<rparr>"

definition two_asks :: order_books where
  "two_asks = [''AAPL'' \<mapsto> \<lparr>buy = [], sell = [alice_sell, bob_sell]\<rparr>]"

definition gina_sell :: order_rec where
  "gina_sell = \<lparr>username = ''gina'', side = ''SELL'', symbol = ''AAPL'', price = 99, quantity = 4\<rparr>"

definition henry_sell :: order_rec where
  "henry_sell = \<lparr>username = ''henry'', side = ''SELL'', symbol = ''AAPL'', price = 100, quantity = 1\<rparr>"

definition three_asks :: order_books where
  "three_asks = [''AAPL'' \<mapsto> \<lparr>buy = [], sell = [gina_sell, alice_sell, bob_sell]\<rparr>]"

definition dave_sell :: order_rec where
  "dave_sell = \<lparr>username = ''dave'', side = ''SELL'', symbol = ''MSFT'', price = 50, quantity = 10\<rparr>"

definition erin_buy :: order_rec where
  "erin_buy = \<lparr>username = ''erin'', side = ''BUY'', symbol = ''MSFT'', price = 40, quantity = 10\<rparr>"

definition frank_odd :: order_rec where
  "frank_odd = \<lparr>username = ''frank'', side = ''HOLD'', symbol = ''MSFT'', price = 40, quantity = 12\<rparr>"

definition msft_only :: order_books where
  "msft_only = [''MSFT'' \<mapsto> \<lparr>buy = [], sell = [dave_sell]\<rparr>]"

definition msft_both :: order_books where
  "msft_both = [''MSFT'' \<mapsto> \<lparr>buy = [erin_buy], sell = [dave_sell]\<rparr>]"

text \<open>Orders with a NaN price among them, for the second embedding.\<close>

definition ask_100 :: order_f where
  "ask_100 = \<lparr>username_f = ''s1'', side_f = ''SELL'', symbol_f = ''AAPL'',
      price_f = Num 100, quantity_f = 1\<rparr>"

definition ask_nan :: order_f where
  "ask_nan = \<lparr>username_f = ''n'', side_f = ''SELL'', symbol_f = ''AAPL'',
      price_f = NaN, quantity_f = 1\<rparr>"

definition ask_99 :: order_f where
  "ask_99 = \<lparr>username_f = ''s2'', side_f = ''SELL'', symbol_f = ''AAPL'',
      price_f = Num 99, quantity_f = 1\<rparr>"

definition bid_nan :: order_f where
  "bid_nan = \<lparr>username_f = ''b'', side_f = ''BUY'', symbol_f = ''AAPL'',
      price_f = NaN, quantity_f = 1\<rparr>"

definition ask_a :: order_f where
  "ask_a = \<lparr>username_f = ''a'', side_f = ''SELL'', symbol_f = ''AAPL'',
      price_f = Num 10, quantity_f = 1\<rparr>"

definition ask_b :: order_f where
  "ask_b = \<lparr>username_f = ''b'', side_f = ''SELL'', symbol_f = ''AAPL'',
      price_f = Num 20, quantity_f = 1\<rparr>"

definition ask_c :: order_f where
  "ask_c = \<lparr>username_f = ''c'', side_f = ''SELL'', symbol_f = ''AAPL'',
      price_f = Num 30, quantity_f = 1\<rparr>"

definition ask_d :: order_f where
  "ask_d = \<lparr>username_f = ''d'', side_f = ''SELL'', symbol_f = ''AAPL'',
      price_f = Num 200, quantity_f = 1\<rparr>"

definition ask_early :: order_f where
  "ask_early = \<lparr>username_f = ''A'', side_f = ''SELL'', symbol_f = ''AAPL'',
      price_f = Num 100, quantity_f = 1\<rparr>"

definition ask_e :: order_f where
  "ask_e = \<lparr>username_f = ''e'', side_f = ''SELL'', symbol_f = ''AAPL'',
      price_f = Num 300, quantity_f = 1\<rparr>"

definition ask_late :: order_f where
  "ask_late = \<lparr>username_f = ''B'', side_f = ''SELL'', symbol_f = ''AAPL'',
      price_f = Num 100, quantity_f = 1\<rparr>"

definition bid_five :: order_f where
  "bid_five = \<lparr>username_f = ''z'', side_f = ''BUY'', symbol_f = ''AAPL'',
      price_f = Num 100, quantity_f = 5\<rparr>"

section \<open>Basic facts about the list operations\<close>

lemma index_of_mem:
  "y \<in> set xs \<Longrightarrow> \<exists>i. index_of xs y = Inr i \<and> i < length xs \<and> xs ! i = y \<and> y \<notin> set (take i xs)"
proof (induction xs)
  case Nil
  then show ?case by simp
next
  case (Cons x xs)
  show ?case
  proof (cases "x = y")
    case True
    then show ?thesis by simp
  next
    case False
    with Cons.prems have "y \<in> set xs" by simp
    from Cons.IH [OF this] obtain i where
      "index_of xs y = Inr i" "i < length xs" "xs ! i = y" "y \<notin> set (take i xs)" by blast
    with False show ?thesis by simp
  qed
qed

lemma index_of_Inr:
  "index_of xs y = Inr i \<Longrightarrow> i < length xs \<and> xs ! i = y \<and> y \<notin> set (take i xs)"
proof (induction xs arbitrary: i)
  case Nil
  then show ?case by simp
next
  case (Cons x xs)
  then show ?case by (auto split: if_splits sum.splits)
qed

lemma set_sort_opposite [simp]: "set (sort_opposite sd xs) = set xs"
  by (simp add: sort_opposite_def sort_asc_def sort_desc_def)

lemma find_sorted_mem:
  "find P (sort_opposite sd xs) = Some b \<Longrightarrow> b \<in> set xs \<and> P b"
  by (metis find_Some_iff nth_mem set_sort_opposite)

lemma match_loop_stop:
  assumes "\<not> (rem > 0 \<and> matched \<and> opp \<noteq> [])"
  shows "match_loop symb sd usr prc opp rem matched trades = Inr (opp, rem, trades)"
proof -
  from assms have c: "(rem > 0 \<and> matched \<and> length opp > 0) = False" by simp
  show ?thesis by (subst match_loop.simps) (simp only: c if_False)
qed

lemma match_loop_total:
  "\<exists>opp' rem' ts. match_loop symb sd usr prc opp rem matched trades = Inr (opp', rem', ts)"
proof (induction symb sd usr prc opp rem matched trades rule: match_loop.induct)
  case (1 symb sd usr prc opp rem matched trades)
  show ?case
  proof (cases "rem > 0 \<and> matched \<and> length opp > 0")
    case False
    then have "\<not> (rem > 0 \<and> matched \<and> opp \<noteq> [])" by simp
    from match_loop_stop [OF this] show ?thesis by (intro exI)
  next
    case go: True
    show ?thesis
    proof (cases "find (\<lambda>opp_order. match_condition sd (price opp_order) prc) (sort_opposite sd opp)")
      case None
      from "1.IH"(1) [OF go None] obtain o1 r1 t1 where "match_loop symb sd usr prc opp rem False trades = Inr (o1, r1, t1)" by (elim exE)
      with go None show ?thesis by (subst match_loop.simps) simp
    next
      case (Some b)
      from find_sorted_mem [OF Some] have "b \<in> set opp" by simp
      from index_of_mem [OF this] obtain i where i: "index_of opp b = Inr i" "i < length opp"
        by (elim exE conjE)
      then obtain l where l: "pop opp i = Inr l" by (simp add: pop_def)
      consider "quantity b = rem" | "quantity b > rem" | "quantity b < rem" by linarith
      then show ?thesis
      proof cases
        case 1
        from "1.IH"(2) [OF go Some i(1) 1 l] obtain o1 r1 t1 where "match_loop symb sd usr prc l 0 True
                          (trades @ [trade_info symb sd usr b rem]) = Inr (o1, r1, t1)" by (elim exE)
        with go Some i l 1 show ?thesis
          by (subst match_loop.simps) simp
      next
        case 2
        then have ne: "quantity b \<noteq> rem" by simp
        from "1.IH"(3) [OF go Some i(1) ne 2] obtain o1 r1 t1 where "match_loop symb sd usr prc
           (opp[i := b\<lparr>quantity := quantity b - rem\<rparr>]) 0 True
                          (trades @ [trade_info symb sd usr b rem]) = Inr (o1, r1, t1)" by (elim exE)
        with go Some i 2 ne show ?thesis
          by (subst match_loop.simps) simp
      next
        case 3
        then have ne: "quantity b \<noteq> rem" and ng: "\<not> quantity b > rem" by simp_all
        from "1.IH"(4) [OF go Some i(1) ne ng l] obtain o1 r1 t1 where "match_loop symb sd usr prc l (rem - quantity b) True
                          (trades @ [trade_info symb sd usr b (quantity b)]) = Inr (o1, r1, t1)" by (elim exE)
        with go Some i l ne ng show ?thesis
          by (subst match_loop.simps) simp
      qed
    qed
  qed
qed


lemma init_symbol_lookup:
  "\<exists>bk. init_symbol_if_needed obs s s = Some bk"
  by (simp add: init_symbol_if_needed_def domIff)

lemmas eval_defs = on_order_received_def init_symbol_if_needed_def match_loop.simps
  rest_order_def new_order_def sort_asc_def sort_desc_def sort_opposite_def match_condition_def
  pop_def trade_info_def Let_def

section \<open>The iterations of the matching loop\<close>

lemma match_loop_none:
  assumes "rem > 0" "opp \<noteq> []" "crossing sd prc opp = None"
  shows "match_loop symb sd usr prc opp rem True trades = Inr (opp, rem, trades)"
proof -
  have "match_loop symb sd usr prc opp rem True trades =
          match_loop symb sd usr prc opp rem False trades"
    using assms by (subst match_loop.simps) simp
  also have "\<dots> = Inr (opp, rem, trades)"
    by (rule match_loop_stop) simp
  finally show ?thesis .
qed

lemma match_loop_pop:
  assumes "rem > 0" "crossing sd prc opp = Some b" "index_of opp b = Inr i" "quantity b \<le> rem"
  shows "match_loop symb sd usr prc opp rem True trades =
           match_loop symb sd usr prc (take i opp @ drop (Suc i) opp) (rem - quantity b) True
             (trades @ [trade_info symb sd usr b (quantity b)])"
proof -
  from index_of_Inr [OF assms(3)] have i: "i < length opp" by simp
  then have ne: "opp \<noteq> []" by auto
  from i have p: "pop opp i = Inr (take i opp @ drop (Suc i) opp)" by (simp add: pop_def)
  show ?thesis
  proof (cases "quantity b = rem")
    case True
    with assms ne p show ?thesis by (subst match_loop.simps) simp
  next
    case False
    with assms(4) have "\<not> quantity b > rem" by simp
    with False assms ne p show ?thesis by (subst match_loop.simps) simp
  qed
qed

lemma match_loop_upd:
  assumes "rem > 0" "crossing sd prc opp = Some b" "index_of opp b = Inr i" "quantity b > rem"
  shows "match_loop symb sd usr prc opp rem True trades =
           Inr (opp[i := b\<lparr>quantity := quantity b - rem\<rparr>], 0,
                trades @ [trade_info symb sd usr b rem])"
proof -
  from index_of_Inr [OF assms(3)] have i: "i < length opp" by simp
  then have ne: "opp \<noteq> []" by auto
  from assms(4) have neq: "quantity b \<noteq> rem" by simp
  have "match_loop symb sd usr prc opp rem True trades =
          match_loop symb sd usr prc (opp[i := b\<lparr>quantity := quantity b - rem\<rparr>]) 0 True
            (trades @ [trade_info symb sd usr b rem])"
    using assms ne neq by (subst match_loop.simps) simp
  also have "\<dots> = Inr (opp[i := b\<lparr>quantity := quantity b - rem\<rparr>], 0,
                trades @ [trade_info symb sd usr b rem])"
    by (rule match_loop_stop) simp
  finally show ?thesis .
qed

lemma crossing_index:
  assumes "crossing sd prc opp = Some b"
  shows "\<exists>i. index_of opp b = Inr i"
proof -
  from find_sorted_mem [OF assms] have "b \<in> set opp" by simp
  from index_of_mem [OF this] show ?thesis by (elim exE conjE) (rule exI)
qed

lemma match_loop_invariant:
  assumes res: "match_loop symb sd usr prc opp rem True trades = Inr (opp', rem', ts')"
    and I0: "I opp rem trades"
    and step_pop: "\<And>opp rem trades b i. I opp rem trades \<Longrightarrow> rem > 0 \<Longrightarrow>
        crossing sd prc opp = Some b \<Longrightarrow> index_of opp b = Inr i \<Longrightarrow> quantity b \<le> rem \<Longrightarrow>
        I (take i opp @ drop (Suc i) opp) (rem - quantity b)
          (trades @ [trade_info symb sd usr b (quantity b)])"
    and step_upd: "\<And>opp rem trades b i. I opp rem trades \<Longrightarrow> rem > 0 \<Longrightarrow>
        crossing sd prc opp = Some b \<Longrightarrow> index_of opp b = Inr i \<Longrightarrow> quantity b > rem \<Longrightarrow>
        I (opp[i := b\<lparr>quantity := quantity b - rem\<rparr>]) 0
          (trades @ [trade_info symb sd usr b rem])"
  shows "I opp' rem' ts'"
  using res I0
proof (induction "length opp" arbitrary: opp rem trades rule: less_induct)
  case less
  show ?case
  proof (cases "rem > 0 \<and> opp \<noteq> []")
    case False
    then have "match_loop symb sd usr prc opp rem True trades = Inr (opp, rem, trades)"
      by (intro match_loop_stop) simp
    with less.prems show ?thesis by simp
  next
    case go: True
    show ?thesis
    proof (cases "crossing sd prc opp")
      case None
      with go have "match_loop symb sd usr prc opp rem True trades = Inr (opp, rem, trades)"
        by (intro match_loop_none) simp_all
      with less.prems show ?thesis by simp
    next
      case (Some b)
      from crossing_index [OF Some] obtain i where i: "index_of opp b = Inr i" by (elim exE)
      from index_of_Inr [OF i] have il: "i < length opp" by simp
      show ?thesis
      proof (cases "quantity b \<le> rem")
        case True
        from go have r: "rem > 0" by simp
        have eq: "match_loop symb sd usr prc opp rem True trades =
           match_loop symb sd usr prc (take i opp @ drop (Suc i) opp) (rem - quantity b) True
             (trades @ [trade_info symb sd usr b (quantity b)])"
          by (rule match_loop_pop [OF r Some i True])
        have len: "length (take i opp @ drop (Suc i) opp) < length opp"
          using il by simp
        have inv: "I (take i opp @ drop (Suc i) opp) (rem - quantity b)
             (trades @ [trade_info symb sd usr b (quantity b)])"
          by (rule step_pop [OF less.prems(2) r Some i True])
        from less.prems(1) eq have "match_loop symb sd usr prc (take i opp @ drop (Suc i) opp)
             (rem - quantity b) True (trades @ [trade_info symb sd usr b (quantity b)]) =
             Inr (opp', rem', ts')" by simp
        from less.hyps [OF len this inv] show ?thesis .
      next
        case False
        then have gt: "quantity b > rem" by simp
        from go have r: "rem > 0" by simp
        from match_loop_upd [OF r Some i gt] less.prems(1)
        have "opp' = opp[i := b\<lparr>quantity := quantity b - rem\<rparr>]" "rem' = 0"
          "ts' = trades @ [trade_info symb sd usr b rem]" by simp_all
        with step_upd [OF less.prems(2) r Some i gt] show ?thesis by simp
      qed
    qed
  qed
qed

lemma match_loop_exit:
  assumes res: "match_loop symb sd usr prc opp rem True trades = Inr (opp', rem', ts')"
  shows "rem' \<le> 0 \<or> crossing sd prc opp' = None"
  using res
proof (induction "length opp" arbitrary: opp rem trades rule: less_induct)
  case less
  show ?case
  proof (cases "rem > 0 \<and> opp \<noteq> []")
    case False
    then have "match_loop symb sd usr prc opp rem True trades = Inr (opp, rem, trades)"
      by (intro match_loop_stop) simp
    with less.prems have e: "opp' = opp" "rem' = rem" by simp_all
    show ?thesis
    proof (cases "rem > 0")
      case True
      with False have "opp = []" by simp
      with e show ?thesis by (simp add: sort_opposite_def sort_asc_def sort_desc_def)
    next
      case False
      with e show ?thesis by simp
    qed
  next
    case go: True
    show ?thesis
    proof (cases "crossing sd prc opp")
      case None
      with go have "match_loop symb sd usr prc opp rem True trades = Inr (opp, rem, trades)"
        by (intro match_loop_none) simp_all
      with less.prems None show ?thesis by simp
    next
      case (Some b)
      from crossing_index [OF Some] obtain i where i: "index_of opp b = Inr i" by (elim exE)
      from index_of_Inr [OF i] have il: "i < length opp" by simp
      show ?thesis
      proof (cases "quantity b \<le> rem")
        case True
        from go have r: "rem > 0" by simp
        have eq: "match_loop symb sd usr prc opp rem True trades =
           match_loop symb sd usr prc (take i opp @ drop (Suc i) opp) (rem - quantity b) True
             (trades @ [trade_info symb sd usr b (quantity b)])"
          by (rule match_loop_pop [OF r Some i True])
        have len: "length (take i opp @ drop (Suc i) opp) < length opp"
          using il by simp
        from less.prems(1) eq have "match_loop symb sd usr prc (take i opp @ drop (Suc i) opp)
             (rem - quantity b) True (trades @ [trade_info symb sd usr b (quantity b)]) =
             Inr (opp', rem', ts')" by simp
        from less.hyps [OF len this] show ?thesis .
      next
        case False
        then have gt: "quantity b > rem" by simp
        from go have r: "rem > 0" by simp
        from match_loop_upd [OF r Some i gt] less.prems(1)
        have "rem' = 0" by simp
        then show ?thesis by simp
      qed
    qed
  qed
qed

section \<open>Totality of processing\<close>

text \<open>
  Claim C7. Processing an order always terminates and never raises. The loop is the total
  function \<^const>\<open>match_loop\<close>, whose termination proof is the progress argument: each
  iteration that continues has removed one resting order. The lookup of the book (KeyError),
  \<open>index\<close> (ValueError) and \<open>pop\<close> (IndexError) are the operations that could raise, and
  none of them does: the result is always \<open>Inr\<close> of a new registry and a (finite) list of
  trades. This holds for every order and every registry, in particular for the orders with
  positive quantity and price and side BUY or SELL in a reachable registry.
\<close>

theorem process_total: "\<exists>obs' ts. on_order_received obs ord = Inr (obs', ts)"
proof -
  obtain bk where bk: "init_symbol_if_needed obs (symbol ord) (symbol ord) = Some bk"
    using init_symbol_lookup [of obs "symbol ord"] by (elim exE)
  obtain opp' r ts where
    "match_loop (symbol ord) (side ord) (username ord) (price ord)
       (if side ord = ''BUY'' then sell bk else buy bk) (quantity ord) True [] = Inr (opp', r, ts)"
    using match_loop_total [of "symbol ord" "side ord" "username ord" "price ord"
       "if side ord = ''BUY'' then sell bk else buy bk" "quantity ord" True "[]"] by (elim exE)
  with bk show ?thesis
    by (simp add: on_order_received_def Let_def)
qed

section \<open>Orders of quantity zero\<close>

text \<open>
  Claim C10. An order of quantity 0 produces no trade and inserts no order: the registry is
  unchanged when the symbol is already known, and otherwise gains an empty book for the
  symbol of the order.
\<close>

theorem zero_quantity:
  assumes "quantity ord = 0"
  shows "on_order_received obs ord =
           Inr (if symbol ord \<in> dom obs then obs
                else obs(symbol ord \<mapsto> \<lparr>buy = [], sell = []\<rparr>), [])"
proof -
  obtain bk where bk: "init_symbol_if_needed obs (symbol ord) (symbol ord) = Some bk"
    using init_symbol_lookup [of obs "symbol ord"] by (elim exE)
  have loop: "match_loop (symbol ord) (side ord) (username ord) (price ord) opp 0 True [] =
          Inr (opp, 0, [])" for opp
    by (rule match_loop_stop) simp
  have rec: "\<lparr>buy = buy bk, sell = sell bk\<rparr> = bk" by simp
  have upd: "(init_symbol_if_needed obs (symbol ord))(symbol ord \<mapsto> bk) =
        init_symbol_if_needed obs (symbol ord)"
    using bk by (rule map_upd_triv)
  have "on_order_received obs ord = Inr (init_symbol_if_needed obs (symbol ord), [])"
    using bk assms by (simp add: on_order_received_def Let_def loop rec upd)
  then show ?thesis by (simp add: init_symbol_if_needed_def)
qed

theorem zero_quantity_witness:
  "quantity \<lparr>username = ''u'', side = ''BUY'', symbol = ''AAPL'', price = 100, quantity = 0\<rparr> = 0 \<and>
   on_order_received Map.empty
     \<lparr>username = ''u'', side = ''BUY'', symbol = ''AAPL'', price = 100, quantity = 0\<rparr>
     = Inr ([''AAPL'' \<mapsto> \<lparr>buy = [], sell = []\<rparr>], [])"
  using zero_quantity [of "\<lparr>username = ''u'', side = ''BUY'', symbol = ''AAPL'',
                             price = 100, quantity = 0\<rparr>" Map.empty]
  by simp

section \<open>Frame: the books of the other symbols\<close>

text \<open>
  Claim C8. Processing an order of symbol S changes at most the book registered under S:
  every other entry of the registry is the same before and after, and no entry is removed.
\<close>

theorem frame:
  assumes "on_order_received obs ord = Inr (obs', ts)"
  shows "(\<forall>s. s \<noteq> symbol ord \<longrightarrow> obs' s = obs s) \<and> dom obs \<subseteq> dom obs'"
proof -
  obtain bk where bk: "init_symbol_if_needed obs (symbol ord) (symbol ord) = Some bk"
    using init_symbol_lookup [of obs "symbol ord"] by (elim exE)
  from assms bk obtain bk' where
    obs': "obs' = (init_symbol_if_needed obs (symbol ord))(symbol ord \<mapsto> bk')"
    by (auto simp: on_order_received_def Let_def split: sum.splits prod.splits)
  have other: "obs' s = obs s" if "s \<noteq> symbol ord" for s
    using that by (simp add: obs' init_symbol_if_needed_def)
  have "dom obs \<subseteq> dom obs'"
    by (auto simp: obs' init_symbol_if_needed_def)
  with other show ?thesis by simp
qed

theorem frame_witness:
  "on_order_received msft_only alice_sell =
     Inr (msft_only(''AAPL'' \<mapsto> \<lparr>buy = [], sell = [alice_sell]\<rparr>), []) \<and>
   (msft_only(''AAPL'' \<mapsto> \<lparr>buy = [], sell = [alice_sell]\<rparr>)) ''MSFT'' = msft_only ''MSFT'' \<and>
   dom msft_only \<subseteq> dom (msft_only(''AAPL'' \<mapsto> \<lparr>buy = [], sell = [alice_sell]\<rparr>))"
proof -
  have run: "on_order_received msft_only alice_sell =
      Inr (msft_only(''AAPL'' \<mapsto> \<lparr>buy = [], sell = [alice_sell]\<rparr>), [])"
    by (simp add: eval_defs msft_only_def alice_sell_def dave_sell_def)
  have "''MSFT'' \<noteq> symbol alice_sell" by (simp add: alice_sell_def)
  with frame [OF run] run show ?thesis by blast
qed

section \<open>The result of processing, side by side\<close>

lemma init_symbol_book_of:
  "init_symbol_if_needed obs s s = Some (book_of obs s)"
  by (auto simp: init_symbol_if_needed_def book_of_def domIff)

lemma init_symbol_upd:
  "(init_symbol_if_needed obs s)(s \<mapsto> bk) = obs(s \<mapsto> bk)"
  by (simp add: init_symbol_if_needed_def)

lemma on_order_received_loop:
  assumes "match_loop (symbol ord) (side ord) (username ord) (price ord)
             (opposite_side obs ord) (quantity ord) True [] = Inr (opp', rem', ts)"
  shows "on_order_received obs ord =
          Inr (obs(symbol ord \<mapsto>
                 (if side ord = ''BUY''
                  then \<lparr>buy = (if rem' > 0
                               then rest_order (side ord) (same_side obs ord) (new_order ord rem')
                               else same_side obs ord),
                        sell = opp'\<rparr>
                  else \<lparr>buy = opp',
                        sell = (if rem' > 0
                                then rest_order (side ord) (same_side obs ord) (new_order ord rem')
                                else same_side obs ord)\<rparr>)), ts)"
proof (cases "side ord = ''BUY''")
  case True
  with assms show ?thesis
    by (simp add: on_order_received_def init_symbol_book_of init_symbol_upd
        opposite_side_def same_side_def Let_def)
next
  case False
  with assms show ?thesis
    by (simp add: on_order_received_def init_symbol_book_of init_symbol_upd
        opposite_side_def same_side_def Let_def)
qed

lemma process_sides:
  assumes "on_order_received obs ord = Inr (obs', ts)"
  shows "\<exists>opp' rem'.
           match_loop (symbol ord) (side ord) (username ord) (price ord)
             (opposite_side obs ord) (quantity ord) True [] = Inr (opp', rem', ts) \<and>
           opposite_side obs' ord = opp' \<and>
           same_side obs' ord =
             (if rem' > 0 then rest_order (side ord) (same_side obs ord) (new_order ord rem')
              else same_side obs ord)"
proof -
  obtain opp' rem' ts' where loop:
    "match_loop (symbol ord) (side ord) (username ord) (price ord)
             (opposite_side obs ord) (quantity ord) True [] = Inr (opp', rem', ts')"
    using match_loop_total [of "symbol ord" "side ord" "username ord" "price ord"
       "opposite_side obs ord" "quantity ord" True "[]"] by (elim exE)
  note res = on_order_received_loop [OF loop]
  from res assms have ts: "ts' = ts" by simp
  from res assms have obs': "obs' = obs(symbol ord \<mapsto>
                 (if side ord = ''BUY''
                  then \<lparr>buy = (if rem' > 0
                               then rest_order (side ord) (same_side obs ord) (new_order ord rem')
                               else same_side obs ord),
                        sell = opp'\<rparr>
                  else \<lparr>buy = opp',
                        sell = (if rem' > 0
                                then rest_order (side ord) (same_side obs ord) (new_order ord rem')
                                else same_side obs ord)\<rparr>))" by simp
  have o: "opposite_side obs' ord = opp'"
    by (simp add: obs' opposite_side_def book_of_def)
  have s: "same_side obs' ord =
             (if rem' > 0 then rest_order (side ord) (same_side obs ord) (new_order ord rem')
              else same_side obs ord)"
    by (simp add: obs' same_side_def book_of_def)
  from loop ts o s show ?thesis by simp
qed

lemma process_other:
  assumes "on_order_received obs ord = Inr (obs', ts)" "s \<noteq> symbol ord"
  shows "obs' s = obs s"
proof -
  obtain opp' rem' ts' where loop:
    "match_loop (symbol ord) (side ord) (username ord) (price ord)
             (opposite_side obs ord) (quantity ord) True [] = Inr (opp', rem', ts')"
    using match_loop_total [of "symbol ord" "side ord" "username ord" "price ord"
       "opposite_side obs ord" "quantity ord" True "[]"] by (elim exE)
  from on_order_received_loop [OF loop] assms show ?thesis by auto
qed

lemma process_registered:
  assumes "on_order_received obs ord = Inr (obs', ts)"
  shows "obs' (symbol ord) = Some (book_of obs' (symbol ord))"
proof -
  obtain opp' rem' ts' where loop:
    "match_loop (symbol ord) (side ord) (username ord) (price ord)
             (opposite_side obs ord) (quantity ord) True [] = Inr (opp', rem', ts')"
    using match_loop_total [of "symbol ord" "side ord" "username ord" "price ord"
       "opposite_side obs ord" "quantity ord" True "[]"] by (elim exE)
  from on_order_received_loop [OF loop] assms show ?thesis by (auto simp: book_of_def)
qed

section \<open>Maker price\<close>

lemma match_loop_makers:
  assumes "match_loop symb sd usr prc opp rem True [] = Inr (opp', rem', ts)"
  shows "\<forall>t\<in>set ts. \<exists>maker\<in>set opp. \<exists>q. t = trade_info symb sd usr maker q \<and>
            match_condition sd (price maker) prc \<and> q \<le> quantity maker"
proof -
  let ?ok = "\<lambda>t. \<exists>maker\<in>set opp. \<exists>q. t = trade_info symb sd usr maker q \<and>
            match_condition sd (price maker) prc \<and> q \<le> quantity maker"
  let ?I = "\<lambda>(opp1 :: order_rec list) (rem1 :: int) trades1.
              (rem1 > 0 \<longrightarrow> set opp1 \<subseteq> set opp) \<and> (\<forall>t\<in>set trades1. ?ok t)"
  have "?I opp' rem' ts"
  proof (rule match_loop_invariant [where I = ?I, OF assms])
    show "?I opp rem []" by simp
  next
    fix opp1 :: "order_rec list" and rem1 :: int and trades1 b i
    assume I: "?I opp1 rem1 trades1" and r: "rem1 > 0"
      and c: "crossing sd prc opp1 = Some b" and le: "quantity b \<le> rem1"
    from find_sorted_mem [OF c] have b: "b \<in> set opp1" "match_condition sd (price b) prc"
      by simp_all
    with I r have "b \<in> set opp" by auto
    with b have new: "?ok (trade_info symb sd usr b (quantity b))"
      by (intro bexI [of _ b] exI [of _ "quantity b"]) simp_all
    have "set (take i opp1 @ drop (Suc i) opp1) \<subseteq> set opp1"
      using set_take_subset [of i opp1] set_drop_subset [of "Suc i" opp1] by auto
    with I r have "set (take i opp1 @ drop (Suc i) opp1) \<subseteq> set opp" by auto
    with I new show "?I (take i opp1 @ drop (Suc i) opp1) (rem1 - quantity b)
          (trades1 @ [trade_info symb sd usr b (quantity b)])" by simp
  next
    fix opp1 :: "order_rec list" and rem1 :: int and trades1 b i
    assume I: "?I opp1 rem1 trades1" and r: "rem1 > 0"
      and c: "crossing sd prc opp1 = Some b" and gt: "quantity b > rem1"
    from find_sorted_mem [OF c] have b: "b \<in> set opp1" "match_condition sd (price b) prc"
      by simp_all
    with I r have "b \<in> set opp" by auto
    with b gt have new: "?ok (trade_info symb sd usr b rem1)"
      by (intro bexI [of _ b] exI [of _ rem1]) simp_all
    with I show "?I (opp1[i := b\<lparr>quantity := quantity b - rem1\<rparr>]) 0
          (trades1 @ [trade_info symb sd usr b rem1])" by simp
  qed
  then show ?thesis by simp
qed

text \<open>
  Claim C1. Every trade emitted while an order is processed is priced at the price of the
  resting order it was matched against: a member of the opposite list of the registry as it
  was before the call, which meets the match condition and supplies the counterparty of the
  trade. The price of the aggressing order is never used: where the two prices differ, the
  trade price differs from the aggressor's.
\<close>

theorem maker_price:
  assumes "on_order_received obs ord = Inr (obs', ts)" and "t \<in> set ts"
  shows "\<exists>maker\<in>set (opposite_side obs ord).
           trade_price t = price maker \<and>
           (price maker \<noteq> price ord \<longrightarrow> trade_price t \<noteq> price ord) \<and>
           match_condition (side ord) (price maker) (price ord) \<and>
           (\<exists>q. t = trade_info (symbol ord) (side ord) (username ord) maker q)"
proof -
  from process_sides [OF assms(1)] obtain opp' rem' where
    loop: "match_loop (symbol ord) (side ord) (username ord) (price ord)
             (opposite_side obs ord) (quantity ord) True [] = Inr (opp', rem', ts)"
    by (elim exE conjE)
  from match_loop_makers [OF loop] assms(2) obtain maker q where
    m: "maker \<in> set (opposite_side obs ord)"
       "t = trade_info (symbol ord) (side ord) (username ord) maker q"
       "match_condition (side ord) (price maker) (price ord)"
    by auto
  from m(2) have "trade_price t = price maker" by (simp add: trade_info_def)
  with m show ?thesis by auto
qed

theorem maker_price_witness:
  "on_order_received two_asks carol_buy =
     Inr ([''AAPL'' \<mapsto> \<lparr>buy = [], sell = [bob_sell\<lparr>quantity := 3\<rparr>]\<rparr>],
          [trade_info ''AAPL'' ''BUY'' ''carol'' alice_sell 5,
           trade_info ''AAPL'' ''BUY'' ''carol'' bob_sell 2]) \<and>
   price carol_buy = 101 \<and>
   trade_price (trade_info ''AAPL'' ''BUY'' ''carol'' alice_sell 5) = 100 \<and>
   (\<exists>maker\<in>set (opposite_side two_asks carol_buy).
           trade_price (trade_info ''AAPL'' ''BUY'' ''carol'' alice_sell 5) = price maker \<and>
           (price maker \<noteq> price carol_buy \<longrightarrow>
              trade_price (trade_info ''AAPL'' ''BUY'' ''carol'' alice_sell 5) \<noteq> price carol_buy) \<and>
           match_condition (side carol_buy) (price maker) (price carol_buy) \<and>
           (\<exists>q. trade_info ''AAPL'' ''BUY'' ''carol'' alice_sell 5 =
              trade_info (symbol carol_buy) (side carol_buy) (username carol_buy) maker q))"
proof -
  have run: "on_order_received two_asks carol_buy =
     Inr ([''AAPL'' \<mapsto> \<lparr>buy = [], sell = [bob_sell\<lparr>quantity := 3\<rparr>]\<rparr>],
          [trade_info ''AAPL'' ''BUY'' ''carol'' alice_sell 5,
           trade_info ''AAPL'' ''BUY'' ''carol'' bob_sell 2])"
    by (simp add: eval_defs two_asks_def carol_buy_def alice_sell_def bob_sell_def)
  have mem: "trade_info ''AAPL'' ''BUY'' ''carol'' alice_sell 5 \<in>
     set [trade_info ''AAPL'' ''BUY'' ''carol'' alice_sell 5,
           trade_info ''AAPL'' ''BUY'' ''carol'' bob_sell 2]" by simp
  have p: "price carol_buy = 101"
    "trade_price (trade_info ''AAPL'' ''BUY'' ''carol'' alice_sell 5) = 100"
    by (simp_all add: carol_buy_def trade_info_def alice_sell_def)
  from maker_price [OF run mem] run p show ?thesis by simp
qed

section \<open>No crossed book at rest\<close>

lemma match_loop_prices:
  assumes "match_loop symb sd usr prc opp rem True trades = Inr (opp', rem', ts)"
  shows "price ` set opp' \<subseteq> price ` set opp"
proof -
  let ?I = "\<lambda>(opp1 :: order_rec list) (rem1 :: int) (trades1 :: trade list).
              price ` set opp1 \<subseteq> price ` set opp"
  show ?thesis
  proof (rule match_loop_invariant [where I = ?I, OF assms])
    show "?I opp rem trades" by simp
  next
    fix opp1 :: "order_rec list" and rem1 :: int and trades1 :: "trade list" and b i
    assume I: "?I opp1 rem1 trades1"
    have "set (take i opp1 @ drop (Suc i) opp1) \<subseteq> set opp1"
      using set_take_subset [of i opp1] set_drop_subset [of "Suc i" opp1] by auto
    with I show "?I (take i opp1 @ drop (Suc i) opp1) (rem1 - quantity b)
          (trades1 @ [trade_info symb sd usr b (quantity b)])" by blast
  next
    fix opp1 :: "order_rec list" and rem1 :: int and trades1 :: "trade list" and b i
    assume I: "?I opp1 rem1 trades1" and c: "crossing sd prc opp1 = Some b"
    from find_sorted_mem [OF c] have b: "b \<in> set opp1" by simp
    have "set (opp1[i := b\<lparr>quantity := quantity b - rem1\<rparr>]) \<subseteq>
            insert (b\<lparr>quantity := quantity b - rem1\<rparr>) (set opp1)"
      by (rule set_update_subset_insert)
    then have "price ` set (opp1[i := b\<lparr>quantity := quantity b - rem1\<rparr>]) \<subseteq>
            insert (price b) (price ` set opp1)" by auto
    with b I show "?I (opp1[i := b\<lparr>quantity := quantity b - rem1\<rparr>]) 0
          (trades1 @ [trade_info symb sd usr b rem1])" by auto
  qed
qed

lemma crossing_None:
  "crossing sd prc opp = None \<Longrightarrow> y \<in> set opp \<Longrightarrow> \<not> match_condition sd (price y) prc"
  by (simp add: find_None_iff)

lemma set_rest_order [simp]: "set (rest_order sd xs x) = insert x (set xs)"
  by (simp add: rest_order_def sort_asc_def sort_desc_def)

lemma no_cross_sides:
  "no_cross (book_of obs (symbol ord)) \<longleftrightarrow>
     (\<forall>x\<in>set (same_side obs ord). \<forall>y\<in>set (opposite_side obs ord).
        \<not> match_condition (side ord) (price y) (price x))"
  by (auto simp: no_cross_def same_side_def opposite_side_def match_condition_def not_le)

lemma no_cross_step:
  assumes nc: "no_cross (book_of obs (symbol ord))"
    and res: "on_order_received obs ord = Inr (obs', ts)"
  shows "no_cross (book_of obs' (symbol ord))"
proof -
  from process_sides [OF res] obtain opp' rem' where
    loop: "match_loop (symbol ord) (side ord) (username ord) (price ord)
             (opposite_side obs ord) (quantity ord) True [] = Inr (opp', rem', ts)"
    and opp: "opposite_side obs' ord = opp'"
    and same: "same_side obs' ord =
             (if rem' > 0 then rest_order (side ord) (same_side obs ord) (new_order ord rem')
              else same_side obs ord)"
    by (elim exE conjE)
  note prices = match_loop_prices [OF loop]
  note exit = match_loop_exit [OF loop]
  have "\<not> match_condition (side ord) (price y) (price x)"
    if x: "x \<in> set (same_side obs' ord)" and y: "y \<in> set opp'" for x y
  proof (cases "x \<in> set (same_side obs ord)")
    case True
    from y prices obtain y0 where "y0 \<in> set (opposite_side obs ord)" "price y = price y0"
      by auto
    with nc True show ?thesis by (simp add: no_cross_sides)
  next
    case False
    with x same have r: "rem' > 0" and xe: "x = new_order ord rem'"
      by (auto split: if_splits)
    from r exit have "crossing (side ord) (price ord) opp' = None" by simp
    from crossing_None [OF this y] xe show ?thesis by (simp add: new_order_def)
  qed
  with opp show ?thesis by (simp add: no_cross_sides)
qed

lemma reachable_no_cross:
  assumes "reachable obs"
  shows "no_cross (book_of obs s)"
  using assms
proof (induction arbitrary: s rule: reachable.induct)
  case reachable_init
  show ?case by (simp add: no_cross_def book_of_def)
next
  case (reachable_step obs ord obs' ts)
  show ?case
  proof (cases "s = symbol ord")
    case True
    with no_cross_step [OF reachable_step.IH reachable_step.hyps(2)] show ?thesis by simp
  next
    case False
    from process_other [OF reachable_step.hyps(2) False] reachable_step.IH [of s]
    show ?thesis by (simp add: book_of_def)
  qed
qed

text \<open>
  Claim C4, amended. In every registry reachable from the empty one by processing orders
  whose prices are numbers, every registered book is uncrossed between two calls: one of
  its sides is empty, or its highest resting buy price is strictly below its lowest resting
  sell price. (With an order whose price is NaN the claim fails, as the
  second embedding shows in the last section.)
\<close>

theorem no_cross_at_rest:
  assumes "reachable obs" and "obs s = Some bk"
  shows "buy bk = [] \<or> sell bk = [] \<or>
         Max (price ` set (buy bk)) < Min (price ` set (sell bk))"
proof (cases "buy bk = [] \<or> sell bk = []")
  case True
  then show ?thesis by auto
next
  case False
  from assms(2) have bk: "book_of obs s = bk" by (simp add: book_of_def)
  from reachable_no_cross [OF assms(1), of s] bk
  have nc: "\<forall>b\<in>set (buy bk). \<forall>a\<in>set (sell bk). price b < price a"
    by (simp add: no_cross_def)
  from False have ne: "price ` set (buy bk) \<noteq> {}" "price ` set (sell bk) \<noteq> {}" by simp_all
  have "Max (price ` set (buy bk)) < Min (price ` set (sell bk))"
    using ne nc by (simp add: Max_less_iff Min_gr_iff)
  then show ?thesis by simp
qed

lemma reachable_msft_both: "reachable msft_both"
proof -
  have e1: "on_order_received Map.empty dave_sell = Inr (msft_only, [])"
    by (simp add: eval_defs msft_only_def dave_sell_def)
  have e2: "on_order_received msft_only erin_buy = Inr (msft_both, [])"
    by (simp add: eval_defs msft_only_def msft_both_def dave_sell_def erin_buy_def)
  from reachable_step [OF reachable_step [OF reachable_init e1] e2] show ?thesis .
qed

theorem no_cross_at_rest_witness:
  "reachable msft_both \<and>
   msft_both ''MSFT'' = Some \<lparr>buy = [erin_buy], sell = [dave_sell]\<rparr> \<and>
   Max (price ` set [erin_buy]) < Min (price ` set [dave_sell])"
proof -
  have bk: "msft_both ''MSFT'' = Some \<lparr>buy = [erin_buy], sell = [dave_sell]\<rparr>"
    by (simp add: msft_both_def)
  from no_cross_at_rest [OF reachable_msft_both bk] reachable_msft_both bk
  show ?thesis by simp
qed

section \<open>Quantities through the matching loop\<close>

lemma total_quantity_pop:
  assumes "i < length xs"
  shows "total_quantity (take i xs @ drop (Suc i) xs) = total_quantity xs - quantity (xs ! i)"
proof -
  from assms have "xs = take i xs @ xs ! i # drop (Suc i) xs" by (rule id_take_nth_drop)
  then have "total_quantity xs = total_quantity (take i xs @ xs ! i # drop (Suc i) xs)" by simp
  then show ?thesis by (simp add: total_quantity_def)
qed

lemma total_quantity_upd:
  assumes "i < length xs"
  shows "total_quantity (xs[i := y]) = total_quantity xs - quantity (xs ! i) + quantity y"
proof -
  from assms have "xs = take i xs @ xs ! i # drop (Suc i) xs" by (rule id_take_nth_drop)
  then have a: "total_quantity xs = total_quantity (take i xs @ xs ! i # drop (Suc i) xs)" by simp
  from assms have "xs[i := y] = take i xs @ y # drop (Suc i) xs" by (rule upd_conv_take_nth_drop)
  with a show ?thesis by (simp add: total_quantity_def)
qed

lemma total_quantity_mset:
  "total_quantity xs = sum_mset (image_mset quantity (mset xs))"
  by (simp add: total_quantity_def flip: sum_mset_sum_list)

lemma total_quantity_rest_order:
  "total_quantity (rest_order sd xs x) = total_quantity xs + quantity x"
  by (simp add: total_quantity_mset rest_order_def sort_asc_def sort_desc_def)

lemma match_loop_conserves:
  assumes "match_loop symb sd usr prc opp rem True [] = Inr (opp', rem', ts)"
  shows "total_quantity opp' + sum_list (map trade_quantity ts) = total_quantity opp \<and>
         rem' + sum_list (map trade_quantity ts) = rem \<and>
         (\<forall>t\<in>set ts. trade_symbol t = symb)"
proof -
  let ?I = "\<lambda>(opp1 :: order_rec list) (rem1 :: int) (trades1 :: trade list).
      total_quantity opp1 + sum_list (map trade_quantity trades1) = total_quantity opp \<and>
      rem1 + sum_list (map trade_quantity trades1) = rem \<and>
      (\<forall>t\<in>set trades1. trade_symbol t = symb)"
  show ?thesis
  proof (rule match_loop_invariant [where I = ?I, OF assms])
    show "?I opp rem []" by simp
  next
    fix opp1 :: "order_rec list" and rem1 :: int and trades1 :: "trade list"
      and b :: order_rec and i :: nat
    assume I: "?I opp1 rem1 trades1" and ix: "index_of opp1 b = Inr i"
    from index_of_Inr [OF ix] have i: "i < length opp1" "opp1 ! i = b" by simp_all
    from total_quantity_pop [OF i(1)] i(2) I
    show "?I (take i opp1 @ drop (Suc i) opp1) (rem1 - quantity b)
          (trades1 @ [trade_info symb sd usr b (quantity b)])"
      by (simp add: trade_info_def)
  next
    fix opp1 :: "order_rec list" and rem1 :: int and trades1 :: "trade list"
      and b :: order_rec and i :: nat
    assume I: "?I opp1 rem1 trades1" and ix: "index_of opp1 b = Inr i"
    from index_of_Inr [OF ix] have i: "i < length opp1" "opp1 ! i = b" by simp_all
    from total_quantity_upd [OF i(1), of "b\<lparr>quantity := quantity b - rem1\<rparr>"] i(2) I
    show "?I (opp1[i := b\<lparr>quantity := quantity b - rem1\<rparr>]) 0
          (trades1 @ [trade_info symb sd usr b rem1])"
      by (simp add: trade_info_def)
  qed
qed

lemma match_loop_remaining_nonneg:
  assumes "match_loop symb sd usr prc opp rem True trades = Inr (opp', rem', ts)" "rem \<ge> 0"
  shows "rem' \<ge> 0"
proof -
  let ?I = "\<lambda>(opp1 :: order_rec list) (rem1 :: int) (trades1 :: trade list). rem1 \<ge> 0"
  show ?thesis
    by (rule match_loop_invariant [where I = ?I, OF assms(1)]) (simp_all add: assms(2))
qed

lemma match_loop_positive:
  assumes "match_loop symb sd usr prc opp rem True trades = Inr (opp', rem', ts)"
    and "\<forall>x\<in>set opp. quantity x > 0"
  shows "\<forall>x\<in>set opp'. quantity x > 0"
proof -
  let ?I = "\<lambda>(opp1 :: order_rec list) (rem1 :: int) (trades1 :: trade list).
              \<forall>x\<in>set opp1. quantity x > 0"
  show ?thesis
  proof (rule match_loop_invariant [where I = ?I, OF assms(1)])
    show "?I opp rem trades" by (rule assms(2))
  next
    fix opp1 :: "order_rec list" and rem1 :: int and trades1 :: "trade list"
      and b :: order_rec and i :: nat
    assume I: "?I opp1 rem1 trades1"
    have "set (take i opp1 @ drop (Suc i) opp1) \<subseteq> set opp1"
      using set_take_subset [of i opp1] set_drop_subset [of "Suc i" opp1] by auto
    with I show "?I (take i opp1 @ drop (Suc i) opp1) (rem1 - quantity b)
          (trades1 @ [trade_info symb sd usr b (quantity b)])" by blast
  next
    fix opp1 :: "order_rec list" and rem1 :: int and trades1 :: "trade list"
      and b :: order_rec and i :: nat
    assume I: "?I opp1 rem1 trades1" and gt: "quantity b > rem1"
    have "set (opp1[i := b\<lparr>quantity := quantity b - rem1\<rparr>]) \<subseteq>
            insert (b\<lparr>quantity := quantity b - rem1\<rparr>) (set opp1)"
      by (rule set_update_subset_insert)
    with I gt show "?I (opp1[i := b\<lparr>quantity := quantity b - rem1\<rparr>]) 0
          (trades1 @ [trade_info symb sd usr b rem1])" by auto
  qed
qed

section \<open>Conservation of quantity\<close>

lemma resting_same:
  "side ord = ''BUY'' \<or> side ord = ''SELL'' \<Longrightarrow>
     resting obs (symbol ord) (side ord) = total_quantity (same_side obs ord)"
  by (auto simp: resting_def same_side_def)

lemma resting_opposite:
  "side ord = ''BUY'' \<or> side ord = ''SELL'' \<Longrightarrow> sd = ''BUY'' \<or> sd = ''SELL'' \<Longrightarrow>
     sd \<noteq> side ord \<Longrightarrow>
     resting obs (symbol ord) sd = total_quantity (opposite_side obs ord)"
  by (auto simp: resting_def opposite_side_def)

lemma traded_append: "traded (ts @ ts') s = traded ts s + traded ts' s"
  by (simp add: traded_def)

lemma traded_other:
  assumes "\<forall>t\<in>set ts. trade_symbol t = symb" "s \<noteq> symb"
  shows "traded ts s = 0"
proof -
  from assms have "filter (\<lambda>t. trade_symbol t = s) ts = []"
    by (auto simp: filter_empty_conv)
  then show ?thesis by (simp add: traded_def)
qed

lemma traded_same:
  assumes "\<forall>t\<in>set ts. trade_symbol t = symb"
  shows "traded ts symb = sum_list (map trade_quantity ts)"
proof -
  from assms have "filter (\<lambda>t. trade_symbol t = symb) ts = ts"
    by (auto simp: filter_id_conv)
  then show ?thesis by (simp add: traded_def)
qed

lemma process_conserves:
  assumes res: "on_order_received obs ord = Inr (obs', ts)"
    and q: "quantity ord \<ge> 0"
    and so: "side ord = ''BUY'' \<or> side ord = ''SELL''"
    and sd: "sd = ''BUY'' \<or> sd = ''SELL''"
  shows "resting obs' s sd + traded ts s = resting obs s sd + submitted [ord] s sd"
proof -
  from process_sides [OF res] obtain opp' rem' where
    loop: "match_loop (symbol ord) (side ord) (username ord) (price ord)
             (opposite_side obs ord) (quantity ord) True [] = Inr (opp', rem', ts)"
    and opp: "opposite_side obs' ord = opp'"
    and same: "same_side obs' ord =
             (if rem' > 0 then rest_order (side ord) (same_side obs ord) (new_order ord rem')
              else same_side obs ord)"
    by (elim exE conjE)
  from match_loop_conserves [OF loop] have
    c1: "total_quantity opp' + sum_list (map trade_quantity ts) =
           total_quantity (opposite_side obs ord)"
    and c2: "rem' + sum_list (map trade_quantity ts) = quantity ord"
    and c3: "\<forall>t\<in>set ts. trade_symbol t = symbol ord" by simp_all
  from match_loop_remaining_nonneg [OF loop q] have r: "rem' \<ge> 0" .
  show ?thesis
  proof (cases "s = symbol ord")
    case False
    from process_other [OF res False] have "book_of obs' s = book_of obs s"
      by (simp add: book_of_def)
    then have "resting obs' s sd = resting obs s sd" by (simp add: resting_def)
    moreover from traded_other [OF c3 False] have "traded ts s = 0" .
    moreover from False have "submitted [ord] s sd = 0"
      by (simp add: submitted_def total_quantity_def)
    ultimately show ?thesis by simp
  next
    case s: True
    from traded_same [OF c3] s have t: "traded ts s = sum_list (map trade_quantity ts)" by simp
    show ?thesis
    proof (cases "sd = side ord")
      case True
      have "total_quantity (same_side obs' ord) = total_quantity (same_side obs ord) + rem'"
        using r by (simp add: same total_quantity_rest_order new_order_def)
      with c2 t s True resting_same [OF so, of obs] resting_same [OF so, of obs']
      show ?thesis by (simp add: submitted_def total_quantity_def)
    next
      case False
      from resting_opposite [OF so sd False, of obs] resting_opposite [OF so sd False, of obs']
        c1 opp t s False
      show ?thesis by (simp add: submitted_def total_quantity_def)
    qed
  qed
qed

lemma submitted_Cons:
  "submitted (ord # ords) s sd = submitted [ord] s sd + submitted ords s sd"
  by (simp add: submitted_def total_quantity_def)

lemma consume_conserves:
  assumes "consume obs0 ords = Inr (obs, ts)"
    and "\<forall>ord\<in>set ords. valid_order ord"
    and sd: "sd = ''BUY'' \<or> sd = ''SELL''"
  shows "resting obs s sd + traded ts s = resting obs0 s sd + submitted ords s sd"
  using assms(1,2)
proof (induction ords arbitrary: obs0 obs ts)
  case Nil
  then show ?case by (simp add: traded_def submitted_def total_quantity_def)
next
  case (Cons ord ords)
  from Cons.prems(1) obtain obs1 ts1 ts2 where
    step: "on_order_received obs0 ord = Inr (obs1, ts1)"
    and rest: "consume obs1 ords = Inr (obs, ts2)"
    and ts: "ts = ts1 @ ts2"
    by (auto split: sum.splits prod.splits)
  from Cons.prems(2) have v: "valid_order ord" and vs: "\<forall>ord\<in>set ords. valid_order ord"
    by simp_all
  from v have q: "quantity ord \<ge> 0" and so: "side ord = ''BUY'' \<or> side ord = ''SELL''"
    by (simp_all add: valid_order_def)
  from process_conserves [OF step q so sd, of s] Cons.IH [OF rest vs]
  show ?case by (simp add: ts traded_append submitted_Cons [of ord ords])
qed

section \<open>Positive resting quantities and the conservation law\<close>

lemma sides_union:
  "set (buy (book_of obs (symbol ord))) \<union> set (sell (book_of obs (symbol ord))) =
     set (same_side obs ord) \<union> set (opposite_side obs ord)"
  by (auto simp: same_side_def opposite_side_def)

lemma process_positive:
  assumes res: "on_order_received obs ord = Inr (obs', ts)" and pos: "positive_books obs"
  shows "positive_books obs'"
proof -
  from process_sides [OF res] obtain opp' rem' where
    loop: "match_loop (symbol ord) (side ord) (username ord) (price ord)
             (opposite_side obs ord) (quantity ord) True [] = Inr (opp', rem', ts)"
    and opp: "opposite_side obs' ord = opp'"
    and same: "same_side obs' ord =
             (if rem' > 0 then rest_order (side ord) (same_side obs ord) (new_order ord rem')
              else same_side obs ord)"
    by (elim exE conjE)
  from pos have old: "\<forall>x\<in>set (same_side obs ord) \<union> set (opposite_side obs ord). quantity x > 0"
    unfolding positive_books_def sides_union [symmetric] by blast
  then have "\<forall>x\<in>set (opposite_side obs ord). quantity x > 0" by simp
  from match_loop_positive [OF loop this] have o: "\<forall>x\<in>set opp'. quantity x > 0" .
  from old have s: "\<forall>x\<in>set (same_side obs' ord). quantity x > 0"
    by (auto simp: same new_order_def split: if_splits)
  have "quantity x > 0"
    if "x \<in> set (buy (book_of obs' s)) \<union> set (sell (book_of obs' s))" for s x
  proof (cases "s = symbol ord")
    case True
    with that have "x \<in> set (same_side obs' ord) \<union> set (opposite_side obs' ord)"
      by (simp add: sides_union)
    with o s opp show ?thesis by auto
  next
    case False
    from process_other [OF res False] have "book_of obs' s = book_of obs s"
      by (simp add: book_of_def)
    with that pos show ?thesis unfolding positive_books_def by auto
  qed
  then show ?thesis unfolding positive_books_def by blast
qed

lemma positive_books_empty: "positive_books Map.empty"
  by (simp add: positive_books_def book_of_def)

lemma consume_positive:
  assumes "consume obs0 ords = Inr (obs, ts)" "positive_books obs0"
  shows "positive_books obs"
  using assms
proof (induction ords arbitrary: obs0 obs ts)
  case Nil
  then show ?case by simp
next
  case (Cons ord ords)
  from Cons.prems(1) obtain obs1 ts1 ts2 where
    step: "on_order_received obs0 ord = Inr (obs1, ts1)"
    and rest: "consume obs1 ords = Inr (obs, ts2)"
    by (auto split: sum.splits prod.splits)
  from Cons.IH [OF rest process_positive [OF step Cons.prems(2)]] show ?case .
qed

lemma reachable_positive: "reachable obs \<Longrightarrow> positive_books obs"
proof (induction rule: reachable.induct)
  case reachable_init
  show ?case by (rule positive_books_empty)
next
  case (reachable_step obs ord obs' ts)
  from process_positive [OF reachable_step.hyps(2) reachable_step.IH] show ?case .
qed

lemma positive_resting: 
  assumes "positive_books obs"
  shows "resting obs s sd \<ge> 0"
proof -
  from assms have "\<forall>x\<in>set (buy (book_of obs s)) \<union> set (sell (book_of obs s)). quantity x \<ge> 0"
    unfolding positive_books_def by (meson less_imp_le)
  then show ?thesis
    by (auto simp: resting_def total_quantity_def intro!: sum_list_nonneg)
qed

lemma resting_empty: "resting Map.empty s sd = 0"
  by (simp add: resting_def book_of_def total_quantity_def)

text \<open>
  Claim C3. For every sequence of valid orders processed from the empty registry, for each
  symbol and each of the two sides: the quantity traded in the symbol is at most the
  quantity submitted on that side, and the quantity resting on that side plus the quantity
  traded equals the quantity submitted on that side. (Every trade takes its quantity from
  one buy order and one sell order, so it counts against both sides.)
\<close>

theorem conservation:
  assumes "\<forall>ord\<in>set ords. valid_order ord" and "consume Map.empty ords = Inr (obs, ts)"
  shows "traded ts symb \<le> submitted ords symb ''BUY'' \<and>
         traded ts symb \<le> submitted ords symb ''SELL'' \<and>
         resting obs symb ''BUY'' + traded ts symb = submitted ords symb ''BUY'' \<and>
         resting obs symb ''SELL'' + traded ts symb = submitted ords symb ''SELL''"
proof -
  have b: "resting obs symb ''BUY'' + traded ts symb = submitted ords symb ''BUY''"
    using consume_conserves [OF assms(2,1), of "''BUY''" symb] by (simp add: resting_empty)
  have s: "resting obs symb ''SELL'' + traded ts symb = submitted ords symb ''SELL''"
    using consume_conserves [OF assms(2,1), of "''SELL''" symb] by (simp add: resting_empty)
  from consume_positive [OF assms(2) positive_books_empty] have p: "positive_books obs" .
  from positive_resting [OF p, of symb "''BUY''"] positive_resting [OF p, of symb "''SELL''"] b s
  show ?thesis by simp
qed

theorem conservation_witness:
  "valid_order alice_sell \<and> valid_order bob_sell \<and> valid_order carol_buy \<and>
   consume Map.empty [alice_sell, bob_sell, carol_buy] =
     Inr ([''AAPL'' \<mapsto> \<lparr>buy = [], sell = [bob_sell\<lparr>quantity := 3\<rparr>]\<rparr>],
          [trade_info ''AAPL'' ''BUY'' ''carol'' alice_sell 5,
           trade_info ''AAPL'' ''BUY'' ''carol'' bob_sell 2]) \<and>
   traded [trade_info ''AAPL'' ''BUY'' ''carol'' alice_sell 5,
           trade_info ''AAPL'' ''BUY'' ''carol'' bob_sell 2] ''AAPL'' = 7 \<and>
   submitted [alice_sell, bob_sell, carol_buy] ''AAPL'' ''BUY'' = 7 \<and>
   submitted [alice_sell, bob_sell, carol_buy] ''AAPL'' ''SELL'' = 10 \<and>
   resting [''AAPL'' \<mapsto> \<lparr>buy = [], sell = [bob_sell\<lparr>quantity := 3\<rparr>]\<rparr>] ''AAPL'' ''BUY'' + 7 = 7 \<and>
   resting [''AAPL'' \<mapsto> \<lparr>buy = [], sell = [bob_sell\<lparr>quantity := 3\<rparr>]\<rparr>] ''AAPL'' ''SELL'' + 7 = 10"
proof -
  have v: "\<forall>ord\<in>set [alice_sell, bob_sell, carol_buy]. valid_order ord"
    by (simp add: valid_order_def alice_sell_def bob_sell_def carol_buy_def)
  have run: "consume Map.empty [alice_sell, bob_sell, carol_buy] =
     Inr ([''AAPL'' \<mapsto> \<lparr>buy = [], sell = [bob_sell\<lparr>quantity := 3\<rparr>]\<rparr>],
          [trade_info ''AAPL'' ''BUY'' ''carol'' alice_sell 5,
           trade_info ''AAPL'' ''BUY'' ''carol'' bob_sell 2])"
    by (simp add: eval_defs alice_sell_def bob_sell_def carol_buy_def)
  have t: "traded [trade_info ''AAPL'' ''BUY'' ''carol'' alice_sell 5,
           trade_info ''AAPL'' ''BUY'' ''carol'' bob_sell 2] ''AAPL'' = 7"
    by (simp add: traded_def trade_info_def)
  have s: "submitted [alice_sell, bob_sell, carol_buy] ''AAPL'' ''BUY'' = 7"
    "submitted [alice_sell, bob_sell, carol_buy] ''AAPL'' ''SELL'' = 10"
    by (simp_all add: submitted_def total_quantity_def alice_sell_def bob_sell_def carol_buy_def)
  from conservation [OF v run, of "''AAPL''"] v run t s show ?thesis by simp
qed

section \<open>The residual order\<close>

lemma subseq_pop: "subseq (take i xs @ drop (Suc i) xs) xs"
proof (cases "i < length xs")
  case True
  then have "xs = take i xs @ xs ! i # drop (Suc i) xs" by (rule id_take_nth_drop)
  moreover have "subseq (take i xs @ drop (Suc i) xs) (take i xs @ xs ! i # drop (Suc i) xs)"
    by (simp add: subseq_append' list_emb_Cons)
  ultimately show ?thesis by simp
next
  case False
  then show ?thesis by simp
qed

lemma map_order_key_upd:
  assumes "i < length xs" "xs ! i = b"
  shows "map order_key (xs[i := b\<lparr>quantity := q\<rparr>]) = map order_key xs"
proof -
  have "order_key (b\<lparr>quantity := q\<rparr>) = order_key (xs ! i)"
    using assms(2) by (simp add: order_key_def)
  then show ?thesis by (simp add: map_update list_update_same_conv assms(1))
qed

lemma match_loop_subseq:
  assumes "match_loop symb sd usr prc opp rem True trades = Inr (opp', rem', ts)"
  shows "subseq (map order_key opp') (map order_key opp)"
proof -
  let ?I = "\<lambda>(opp1 :: order_rec list) (rem1 :: int) (trades1 :: trade list).
              subseq (map order_key opp1) (map order_key opp)"
  show ?thesis
  proof (rule match_loop_invariant [where I = ?I, OF assms])
    show "?I opp rem trades" by simp
  next
    fix opp1 :: "order_rec list" and rem1 :: int and trades1 :: "trade list"
      and b :: order_rec and i :: nat
    assume I: "?I opp1 rem1 trades1"
    have "subseq (map order_key (take i opp1 @ drop (Suc i) opp1)) (map order_key opp1)"
      by (rule subseq_map) (rule subseq_pop)
    from subseq_order.trans [OF this I]
    show "?I (take i opp1 @ drop (Suc i) opp1) (rem1 - quantity b)
          (trades1 @ [trade_info symb sd usr b (quantity b)])" .
  next
    fix opp1 :: "order_rec list" and rem1 :: int and trades1 :: "trade list"
      and b :: order_rec and i :: nat
    assume I: "?I opp1 rem1 trades1" and ix: "index_of opp1 b = Inr i"
    from index_of_Inr [OF ix] have i: "i < length opp1" "opp1 ! i = b" by simp_all
    from map_order_key_upd [OF i] I
    show "?I (opp1[i := b\<lparr>quantity := quantity b - rem1\<rparr>]) 0
          (trades1 @ [trade_info symb sd usr b rem1])" by simp
  qed
qed

lemma mset_rest_order: "mset (rest_order sd xs x) = add_mset x (mset xs)"
  by (simp add: rest_order_def sort_asc_def sort_desc_def)

text \<open>
  Claim C6. For a valid order, let the matching loop end with remaining quantity \<open>r\<close>
  (the quantity of the order minus the quantities of its trades, never negative). If
  \<open>r = 0\<close>, the same side of the book is left as it was: the aggressor leaves no entry.
  If \<open>r > 0\<close>, the same side gains exactly one entry, the residual order with the
  username, side, symbol and price of the aggressor and quantity \<open>r\<close>. In both cases the
  opposite side gains no entry: its orders after the call are orders it held before, in the
  same relative order.
\<close>

theorem residual:
  assumes "valid_order ord" and "on_order_received obs ord = Inr (obs', ts)"
  shows "\<exists>opp' r.
           match_loop (symbol ord) (side ord) (username ord) (price ord)
             (opposite_side obs ord) (quantity ord) True [] = Inr (opp', r, ts) \<and>
           r = quantity ord - sum_list (map trade_quantity ts) \<and> r \<ge> 0 \<and>
           (r = 0 \<longrightarrow> same_side obs' ord = same_side obs ord) \<and>
           (r > 0 \<longrightarrow> mset (same_side obs' ord) =
                add_mset \<lparr>username = username ord, side = side ord, symbol = symbol ord,
                           price = price ord, quantity = r\<rparr> (mset (same_side obs ord))) \<and>
           subseq (map order_key (opposite_side obs' ord)) (map order_key (opposite_side obs ord))"
proof -
  from process_sides [OF assms(2)] obtain opp' rem' where
    loop: "match_loop (symbol ord) (side ord) (username ord) (price ord)
             (opposite_side obs ord) (quantity ord) True [] = Inr (opp', rem', ts)"
    and opp: "opposite_side obs' ord = opp'"
    and same: "same_side obs' ord =
             (if rem' > 0 then rest_order (side ord) (same_side obs ord) (new_order ord rem')
              else same_side obs ord)"
    by (elim exE conjE)
  from assms(1) have q: "quantity ord \<ge> 0" by (simp add: valid_order_def)
  from match_loop_conserves [OF loop]
  have r: "rem' = quantity ord - sum_list (map trade_quantity ts)" by simp
  from match_loop_remaining_nonneg [OF loop q] have nn: "rem' \<ge> 0" .
  have z: "rem' = 0 \<longrightarrow> same_side obs' ord = same_side obs ord" by (simp add: same)
  have p: "rem' > 0 \<longrightarrow> mset (same_side obs' ord) =
                add_mset \<lparr>username = username ord, side = side ord, symbol = symbol ord,
                           price = price ord, quantity = rem'\<rparr> (mset (same_side obs ord))"
    by (simp add: same mset_rest_order new_order_def)
  from match_loop_subseq [OF loop] opp
  have s: "subseq (map order_key (opposite_side obs' ord)) (map order_key (opposite_side obs ord))"
    by simp
  from loop r nn z p s show ?thesis by blast
qed

theorem residual_witness:
  "valid_order alice_sell \<and>
   on_order_received Map.empty alice_sell =
     Inr ([''AAPL'' \<mapsto> \<lparr>buy = [], sell = [alice_sell]\<rparr>], []) \<and>
   (\<exists>opp' r.
      match_loop (symbol alice_sell) (side alice_sell) (username alice_sell) (price alice_sell)
        (opposite_side Map.empty alice_sell) (quantity alice_sell) True [] = Inr (opp', r, []) \<and>
      r = quantity alice_sell - sum_list (map trade_quantity []) \<and> r \<ge> 0 \<and>
      (r = 0 \<longrightarrow> same_side [''AAPL'' \<mapsto> \<lparr>buy = [], sell = [alice_sell]\<rparr>] alice_sell =
                   same_side Map.empty alice_sell) \<and>
      (r > 0 \<longrightarrow> mset (same_side [''AAPL'' \<mapsto> \<lparr>buy = [], sell = [alice_sell]\<rparr>] alice_sell) =
           add_mset \<lparr>username = username alice_sell, side = side alice_sell,
                      symbol = symbol alice_sell, price = price alice_sell, quantity = r\<rparr>
             (mset (same_side Map.empty alice_sell))) \<and>
      subseq (map order_key (opposite_side [''AAPL'' \<mapsto> \<lparr>buy = [], sell = [alice_sell]\<rparr>] alice_sell))
        (map order_key (opposite_side Map.empty alice_sell)))"
proof -
  have v: "valid_order alice_sell" by (simp add: valid_order_def alice_sell_def)
  have run: "on_order_received Map.empty alice_sell =
     Inr ([''AAPL'' \<mapsto> \<lparr>buy = [], sell = [alice_sell]\<rparr>], [])"
    by (simp add: eval_defs alice_sell_def)
  from residual [OF v run] v run show ?thesis by simp
qed

section \<open>Orders whose side is not BUY\<close>

lemma crossing_not_buy:
  "sd \<noteq> ''BUY'' \<Longrightarrow> crossing sd prc opp = crossing ''SELL'' prc opp"
  by (simp add: sort_opposite_def match_condition_def)

lemma trade_info_not_buy:
  "sd \<noteq> ''BUY'' \<Longrightarrow> trade_info symb sd usr b q = trade_info symb ''SELL'' usr b q"
  by (simp add: trade_info_def)

lemma match_loop_not_buy:
  assumes sd: "sd \<noteq> ''BUY''"
  shows "match_loop symb sd usr prc opp rem True trades =
         match_loop symb ''SELL'' usr prc opp rem True trades"
proof (induction "length opp" arbitrary: opp rem trades rule: less_induct)
  case less
  show ?case
  proof (cases "rem > 0 \<and> opp \<noteq> []")
    case False
    then have "\<not> (rem > 0 \<and> True \<and> opp \<noteq> [])" by simp
    from match_loop_stop [OF this] show ?thesis by simp
  next
    case go: True
    then have r: "rem > 0" and ne: "opp \<noteq> []" by simp_all
    show ?thesis
    proof (cases "crossing sd prc opp")
      case None
      from None crossing_not_buy [OF sd, of prc opp]
      have None': "crossing ''SELL'' prc opp = None" by simp
      from match_loop_none [OF r ne None] match_loop_none [OF r ne None']
      show ?thesis by simp
    next
      case (Some b)
      from Some crossing_not_buy [OF sd, of prc opp]
      have Some': "crossing ''SELL'' prc opp = Some b" by simp
      from crossing_index [OF Some] obtain i where i: "index_of opp b = Inr i" by (elim exE)
      from index_of_Inr [OF i] have il: "i < length opp" by simp
      show ?thesis
      proof (cases "quantity b \<le> rem")
        case True
        have len: "length (take i opp @ drop (Suc i) opp) < length opp"
          using il by simp
        from match_loop_pop [OF r Some i True] match_loop_pop [OF r Some' i True]
          less.hyps [OF len] trade_info_not_buy [OF sd]
        show ?thesis by simp
      next
        case False
        then have gt: "quantity b > rem" by simp
        from match_loop_upd [OF r Some i gt] match_loop_upd [OF r Some' i gt]
          trade_info_not_buy [OF sd]
        show ?thesis by simp
      qed
    qed
  qed
qed

lemma list_all2_insort_key:
  assumes "list_all2 R xs ys" and key: "\<And>a b. R a b \<Longrightarrow> f a = f b" and refl: "R x x"
  shows "list_all2 R (insort_key f x xs) (insort_key f x ys)"
  using assms(1)
proof (induction rule: list_all2_induct)
  case Nil
  show ?case by (simp add: refl)
next
  case (Cons a xs b ys)
  from key [OF Cons.hyps(1)] have "f a = f b" .
  with Cons refl show ?case by simp
qed

lemma list_all2_sort_snoc:
  assumes key: "\<And>a b. R a b \<Longrightarrow> f a = f b" and refl: "\<And>x. R x x" and ab: "R a b"
  shows "list_all2 R (sort_key f (xs @ [a])) (sort_key f (xs @ [b]))"
proof (induction xs)
  case Nil
  from ab show ?case by simp
next
  case (Cons x xs)
  from list_all2_insort_key [of R _ _ f x, OF Cons key refl] show ?case by simp
qed

lemma book_of_upd:
  "book_of (obs(k \<mapsto> v)) s = (if s = k then v else book_of obs s)"
  by (simp add: book_of_def)

text \<open>
  Claim C9. An order whose side is any string other than \<open>"BUY"\<close> is processed as a
  SELL order. It yields the trades of the same order with side \<open>"SELL"\<close>, and the registry
  of that run up to the side string stored in the residual: the same symbols, the same buy
  lists, and sell lists that agree entry by entry except that the residual keeps the side
  string of the order. Every trade names the order's user as seller and is made with a
  resting buy order whose price is at least the order's price, at that resting price. The
  buy side gains no entry, and the residual, if any, rests on the sell side.
\<close>

theorem not_buy_is_sell:
  assumes "side ord \<noteq> ''BUY''" and "on_order_received obs ord = Inr (obs', ts)"
  shows "\<exists>obs'' r.
           on_order_received obs (ord\<lparr>side := ''SELL''\<rparr>) = Inr (obs'', ts) \<and>
           r = quantity ord - sum_list (map trade_quantity ts) \<and>
           dom obs'' = dom obs' \<and>
           (\<forall>s. buy (book_of obs'' s) = buy (book_of obs' s) \<and>
                list_all2 (\<lambda>a b. a = b \<or>
                              (a = new_order ord r \<and> b = new_order (ord\<lparr>side := ''SELL''\<rparr>) r))
                  (sell (book_of obs' s)) (sell (book_of obs'' s))) \<and>
           (\<forall>t\<in>set ts. seller t = username ord \<and>
                (\<exists>maker\<in>set (buy (book_of obs (symbol ord))).
                    buyer t = username maker \<and> trade_price t = price maker \<and>
                    price maker \<ge> price ord)) \<and>
           subseq (map order_key (buy (book_of obs' (symbol ord))))
                  (map order_key (buy (book_of obs (symbol ord)))) \<and>
           (r > 0 \<longrightarrow> mset (sell (book_of obs' (symbol ord))) =
                        add_mset (new_order ord r) (mset (sell (book_of obs (symbol ord))))) \<and>
           (r \<le> 0 \<longrightarrow> sell (book_of obs' (symbol ord)) = sell (book_of obs (symbol ord)))"
proof -
  let ?ord' = "ord\<lparr>side := ''SELL''\<rparr>"
  let ?opp = "buy (book_of obs (symbol ord))"
  let ?same = "sell (book_of obs (symbol ord))"
  have opp: "opposite_side obs ord = ?opp" "opposite_side obs ?ord' = ?opp"
    using assms(1) by (simp_all add: opposite_side_def)
  have same: "same_side obs ord = ?same" "same_side obs ?ord' = ?same"
    using assms(1) by (simp_all add: same_side_def)
  obtain opp' rem' ts' where loop:
    "match_loop (symbol ord) (side ord) (username ord) (price ord) ?opp (quantity ord) True [] =
       Inr (opp', rem', ts')"
    using match_loop_total [of "symbol ord" "side ord" "username ord" "price ord"
       ?opp "quantity ord" True "[]"] by (elim exE)
  with match_loop_not_buy [OF assms(1), of "symbol ord" "username ord" "price ord" ?opp
      "quantity ord" "[]"]
  have loop': "match_loop (symbol ord) ''SELL'' (username ord) (price ord) ?opp (quantity ord)
       True [] = Inr (opp', rem', ts')" by simp
  let ?S = "if rem' > 0 then rest_order (side ord) ?same (new_order ord rem') else ?same"
  let ?S' = "if rem' > 0 then rest_order ''SELL'' ?same (new_order ?ord' rem') else ?same"
  from on_order_received_loop [of ord obs opp' rem' ts'] loop opp(1) same(1) assms(1)
  have run: "on_order_received obs ord =
      Inr (obs(symbol ord \<mapsto> \<lparr>buy = opp', sell = ?S\<rparr>), ts')" by simp
  from on_order_received_loop [of ?ord' obs opp' rem' ts'] loop' opp(2) same(2)
  have run': "on_order_received obs ?ord' =
      Inr (obs(symbol ord \<mapsto> \<lparr>buy = opp', sell = ?S'\<rparr>), ts')" by simp
  from run assms(2) have obs': "obs' = obs(symbol ord \<mapsto> \<lparr>buy = opp', sell = ?S\<rparr>)"
    and ts: "ts' = ts" by simp_all
  let ?obs'' = "obs(symbol ord \<mapsto> \<lparr>buy = opp', sell = ?S'\<rparr>)"
  let ?R = "\<lambda>a b. a = b \<or> (a = new_order ord rem' \<and> b = new_order ?ord' rem')"
  from match_loop_conserves [OF loop] ts
  have r: "rem' = quantity ord - sum_list (map trade_quantity ts)" by simp
  have c1: "on_order_received obs ?ord' = Inr (?obs'', ts)" using run' ts by simp
  have c2: "dom ?obs'' = dom obs'" by (simp add: obs')
  have key: "price a = price b" if "?R a b" for a b
    using that by (elim disjE conjE) (simp_all add: new_order_def)
  have SS: "list_all2 ?R ?S ?S'"
  proof (cases "rem' > 0")
    case True
    have "list_all2 ?R (sort_key price (?same @ [new_order ord rem']))
            (sort_key price (?same @ [new_order ?ord' rem']))"
    proof (rule list_all2_sort_snoc [where R = ?R and f = price])
      fix a b :: order_rec
      assume "?R a b"
      then show "price a = price b" by (rule key)
    next
      fix x :: order_rec
      show "?R x x" by simp
    next
      show "?R (new_order ord rem') (new_order ?ord' rem')" by simp
    qed
    with True assms(1) show ?thesis by (simp add: rest_order_def sort_asc_def)
  next
    case False
    then show ?thesis by (simp add: list_all2_refl)
  qed
  have c3: "buy (book_of ?obs'' s) = buy (book_of obs' s) \<and>
            list_all2 ?R (sell (book_of obs' s)) (sell (book_of ?obs'' s))" for s
  proof (cases "s = symbol ord")
    case True
    with SS show ?thesis by (simp add: obs' book_of_upd)
  next
    case False
    then show ?thesis by (simp add: obs' book_of_upd list_all2_refl)
  qed
  have c4: "seller t = username ord \<and>
                (\<exists>maker\<in>set ?opp.
                    buyer t = username maker \<and> trade_price t = price maker \<and>
                    price maker \<ge> price ord)" if "t \<in> set ts" for t
  proof -
    from match_loop_makers [OF loop] that ts obtain maker q where
      m: "maker \<in> set ?opp"
         "t = trade_info (symbol ord) (side ord) (username ord) maker q"
         "match_condition (side ord) (price maker) (price ord)"
      by auto
    from m(2) assms(1) have "seller t = username ord" "buyer t = username maker"
      "trade_price t = price maker" by (simp_all add: trade_info_def)
    moreover from m(3) assms(1) have "price maker \<ge> price ord"
      by (simp add: match_condition_def)
    ultimately show ?thesis using m(1) by auto
  qed
  from match_loop_subseq [OF loop]
  have c5: "subseq (map order_key (buy (book_of obs' (symbol ord)))) (map order_key ?opp)"
    by (simp add: obs' book_of_upd)
  have c6: "rem' > 0 \<longrightarrow> mset (sell (book_of obs' (symbol ord))) =
                        add_mset (new_order ord rem') (mset ?same)"
    by (simp add: obs' book_of_upd mset_rest_order)
  have c7: "rem' \<le> 0 \<longrightarrow> sell (book_of obs' (symbol ord)) = ?same"
    by (simp add: obs' book_of_upd)
  show ?thesis
    apply (rule exI [of _ ?obs''])
    apply (rule exI [of _ rem'])
    apply (intro conjI allI ballI)
    subgoal by (rule c1)
    subgoal by (rule r)
    subgoal by (rule c2)
    subgoal for s using c3 [of s] by simp
    subgoal for s using c3 [of s] by simp
    subgoal for t using c4 [of t] by simp
    subgoal for t using c4 [of t] by simp
    subgoal by (rule c5)
    subgoal by (rule c6)
    subgoal by (rule c7)
    done
qed

theorem not_buy_is_sell_witness:
  "side frank_odd \<noteq> ''BUY'' \<and>
   on_order_received msft_both frank_odd =
     Inr ([''MSFT'' \<mapsto> \<lparr>buy = [], sell = [new_order frank_odd 2, dave_sell]\<rparr>],
          [trade_info ''MSFT'' ''HOLD'' ''frank'' erin_buy 10]) \<and>
   seller (trade_info ''MSFT'' ''HOLD'' ''frank'' erin_buy 10) = username frank_odd \<and>
   (\<exists>obs''. on_order_received msft_both (frank_odd\<lparr>side := ''SELL''\<rparr>) =
        Inr (obs'', [trade_info ''MSFT'' ''HOLD'' ''frank'' erin_buy 10]) \<and>
      dom obs'' = dom [''MSFT'' \<mapsto> \<lparr>buy = [], sell = [new_order frank_odd 2, dave_sell]\<rparr>])"
proof -
  have ne: "side frank_odd \<noteq> ''BUY''" by (simp add: frank_odd_def)
  have run: "on_order_received msft_both frank_odd =
     Inr ([''MSFT'' \<mapsto> \<lparr>buy = [], sell = [new_order frank_odd 2, dave_sell]\<rparr>],
          [trade_info ''MSFT'' ''HOLD'' ''frank'' erin_buy 10])"
    by (simp add: eval_defs msft_both_def frank_odd_def erin_buy_def dave_sell_def)
  have s: "seller (trade_info ''MSFT'' ''HOLD'' ''frank'' erin_buy 10) = username frank_odd"
    by (simp add: trade_info_def frank_odd_def)
  from not_buy_is_sell [OF ne run] obtain obs'' where
    "on_order_received msft_both (frank_odd\<lparr>side := ''SELL''\<rparr>) =
        Inr (obs'', [trade_info ''MSFT'' ''HOLD'' ''frank'' erin_buy 10])"
    "dom obs'' = dom [''MSFT'' \<mapsto> \<lparr>buy = [], sell = [new_order frank_odd 2, dave_sell]\<rparr>]"
    by (elim exE conjE)
  with ne run s show ?thesis by (intro conjI exI [of _ obs''])
qed

section \<open>Sorted books\<close>

lemma subseq_sorted:
  fixes xs ys :: "'a::linorder list"
  assumes "subseq xs ys" "sorted ys"
  shows "sorted xs"
proof -
  from assms(1) obtain N where "xs = nths ys N" unfolding subseq_conv_nths by (elim exE)
  with sorted_nths [OF assms(2), of N] show ?thesis by simp
qed

lemma subseq_key_sorted:
  assumes sub: "subseq (map order_key xs) (map order_key ys)"
    and srt: "sorted (map (\<lambda>x. g (price x)) ys)"
  shows "sorted (map (\<lambda>x. g (price x)) xs)"
proof -
  let ?h = "\<lambda>k :: string \<times> string \<times> string \<times> real. g (snd (snd (snd k)))"
  have eq: "map (\<lambda>x. g (price x)) zs = map ?h (map order_key zs)" for zs
    by (simp add: order_key_def)
  from subseq_map [OF sub, of ?h]
  have "subseq (map (\<lambda>x. g (price x)) xs) (map (\<lambda>x. g (price x)) ys)"
    unfolding eq .
  from subseq_sorted [OF this srt] show ?thesis .
qed

lemma ordered_book_keys:
  "ordered_book bk \<longleftrightarrow>
     sorted (map (\<lambda>x. - price x) (buy bk)) \<and> sorted (map (\<lambda>x. price x) (sell bk))"
  by (simp add: ordered_book_def sorted_map)

text \<open>The key by which the list of one side is sorted: the buy list (the same side of a
  BUY order, the opposite side of any other) by descending price.\<close>

lemma ordered_book_sides:
  "ordered_book (book_of obs (symbol ord)) \<longleftrightarrow>
     sorted (map (\<lambda>x. (if side ord = ''BUY'' then - price x else price x)) (same_side obs ord)) \<and>
     sorted (map (\<lambda>x. (if side ord = ''BUY'' then price x else - price x)) (opposite_side obs ord))"
  by (auto simp: ordered_book_keys same_side_def opposite_side_def)

lemma rest_order_sort_key:
  "rest_order sd xs x =
     sort_key (\<lambda>x. (if sd = ''BUY'' then - price x else price x)) (xs @ [x])"
  by (simp add: rest_order_def sort_asc_def sort_desc_def)

lemma ordered_step:
  assumes ob: "ordered_book (book_of obs (symbol ord))"
    and res: "on_order_received obs ord = Inr (obs', ts)"
  shows "ordered_book (book_of obs' (symbol ord))"
proof -
  from process_sides [OF res] obtain opp' rem' where
    loop: "match_loop (symbol ord) (side ord) (username ord) (price ord)
             (opposite_side obs ord) (quantity ord) True [] = Inr (opp', rem', ts)"
    and opp: "opposite_side obs' ord = opp'"
    and same: "same_side obs' ord =
             (if rem' > 0 then rest_order (side ord) (same_side obs ord) (new_order ord rem')
              else same_side obs ord)"
    by (elim exE conjE)
  let ?ks = "\<lambda>x. (if side ord = ''BUY'' then - price x else price x)"
  let ?ko = "\<lambda>x. (if side ord = ''BUY'' then price x else - price x)"
  from ob have s0: "sorted (map ?ks (same_side obs ord))"
    and o0: "sorted (map ?ko (opposite_side obs ord))"
    unfolding ordered_book_sides by simp_all
  have s1: "sorted (map ?ks (same_side obs' ord))"
  proof (cases "rem' > 0")
    case True
    then show ?thesis unfolding same rest_order_sort_key by simp
  next
    case False
    with s0 show ?thesis by (simp add: same)
  qed
  from match_loop_subseq [OF loop]
  have sub: "subseq (map order_key opp') (map order_key (opposite_side obs ord))" .
  have o1: "sorted (map ?ko opp')"
    by (rule subseq_key_sorted [where g = "\<lambda>p. if side ord = ''BUY'' then p else - p", OF sub])
       (use o0 in \<open>simp add: if_distrib\<close>)
  from s1 o1 opp show ?thesis unfolding ordered_book_sides by simp
qed

lemma reachable_ordered:
  assumes "reachable obs"
  shows "ordered_book (book_of obs s)"
  using assms
proof (induction arbitrary: s rule: reachable.induct)
  case reachable_init
  show ?case by (simp add: ordered_book_def book_of_def)
next
  case (reachable_step obs ord obs' ts)
  show ?case
  proof (cases "s = symbol ord")
    case True
    with ordered_step [OF reachable_step.IH reachable_step.hyps(2)] show ?thesis by simp
  next
    case False
    from process_other [OF reachable_step.hyps(2) False] reachable_step.IH [of s]
    show ?thesis by (simp add: book_of_def)
  qed
qed

lemma dropWhile_sorted_gt:
  fixes f :: "'a \<Rightarrow> 'k::linorder"
  assumes "sorted (map f xs)" "z \<in> set (dropWhile (\<lambda>y. f y \<le> c) xs)"
  shows "c < f z"
  using assms
proof (induction xs)
  case Nil
  then show ?case by simp
next
  case (Cons a xs)
  show ?case
  proof (cases "f a \<le> c")
    case True
    with Cons show ?thesis by simp
  next
    case False
    then have ca: "c < f a" by simp
    from False Cons.prems(2) have "z = a \<or> z \<in> set xs" by simp
    then show ?thesis
    proof
      assume "z = a"
      with ca show ?thesis by simp
    next
      assume "z \<in> set xs"
      with Cons.prems(1) have "f a \<le> f z" by simp
      with ca show ?thesis by simp
    qed
  qed
qed

lemma sort_key_snoc_sorted:
  fixes f :: "'a \<Rightarrow> 'k::linorder"
  assumes "sorted (map f xs)"
  shows "sort_key f (xs @ [x]) =
           takeWhile (\<lambda>y. f y \<le> f x) xs @ x # dropWhile (\<lambda>y. f y \<le> f x) xs"
  using assms
proof (induction xs)
  case Nil
  show ?case by simp
next
  case (Cons a xs)
  from Cons.prems have sx: "sorted (map f xs)" and ax: "\<forall>y\<in>set xs. f a \<le> f y" by simp_all
  note IH = Cons.IH [OF sx]
  show ?case
  proof (cases "f a \<le> f x")
    case True
    have "\<forall>y\<in>set (takeWhile (\<lambda>y. f y \<le> f x) xs @ x # dropWhile (\<lambda>y. f y \<le> f x) xs).
             f a \<le> f y"
      using ax True by (auto dest: set_takeWhileD set_dropWhileD)
    from insort_is_Cons [OF this] IH True show ?thesis by simp
  next
    case False
    with ax have "\<forall>y\<in>set xs. \<not> f y \<le> f x" by auto
    then have tw: "takeWhile (\<lambda>y. f y \<le> f x) xs = []"
      and dw: "dropWhile (\<lambda>y. f y \<le> f x) xs = xs"
      by (cases xs; simp)+
    from ax have "insort_key f a xs = a # xs" by (rule insort_is_Cons)
    with IH tw dw False show ?thesis by simp
  qed
qed

lemma sort_key_snoc_fifo:
  fixes f :: "'a \<Rightarrow> 'k::linorder"
  assumes "sorted (map f xs)"
  shows "\<exists>ys zs. xs = ys @ zs \<and> sort_key f (xs @ [x]) = ys @ x # zs \<and>
            (\<forall>y\<in>set ys. f y \<le> f x) \<and> (\<forall>z\<in>set zs. f x < f z)"
proof (intro exI conjI)
  show "xs = takeWhile (\<lambda>y. f y \<le> f x) xs @ dropWhile (\<lambda>y. f y \<le> f x) xs" by simp
  show "sort_key f (xs @ [x]) =
      takeWhile (\<lambda>y. f y \<le> f x) xs @ x # dropWhile (\<lambda>y. f y \<le> f x) xs"
    by (rule sort_key_snoc_sorted [OF assms])
  show "\<forall>y\<in>set (takeWhile (\<lambda>y. f y \<le> f x) xs). f y \<le> f x"
    by (auto dest: set_takeWhileD)
  show "\<forall>z\<in>set (dropWhile (\<lambda>y. f y \<le> f x) xs). f x < f z"
    using dropWhile_sorted_gt [OF assms] by blast
qed

section \<open>Price-time order of the book\<close>

lemma same_side_fifo:
  assumes ob: "ordered_book (book_of obs (symbol ord))"
    and res: "on_order_received obs ord = Inr (obs', ts)"
  shows "\<exists>ys zs. same_side obs ord = ys @ zs \<and>
            (same_side obs' ord = ys @ zs \<or>
             (\<exists>r. same_side obs' ord = ys @ new_order ord r # zs)) \<and>
            (\<forall>y\<in>set ys. if side ord = ''BUY'' then price ord \<le> price y
                         else price y \<le> price ord) \<and>
            (\<forall>z\<in>set zs. if side ord = ''BUY'' then price z < price ord
                         else price ord < price z)"
proof -
  from process_sides [OF res] obtain opp' rem' where
    same: "same_side obs' ord =
             (if rem' > 0 then rest_order (side ord) (same_side obs ord) (new_order ord rem')
              else same_side obs ord)"
    by (elim exE conjE)
  let ?ks = "\<lambda>x. (if side ord = ''BUY'' then - price x else price x)"
  from ob have s0: "sorted (map ?ks (same_side obs ord))"
    unfolding ordered_book_sides by simp
  from sort_key_snoc_fifo [OF s0, of "new_order ord rem'"] obtain ys zs where
    split: "same_side obs ord = ys @ zs"
    and ins: "sort_key ?ks (same_side obs ord @ [new_order ord rem']) =
                ys @ new_order ord rem' # zs"
    and ys: "\<forall>y\<in>set ys. ?ks y \<le> ?ks (new_order ord rem')"
    and zs: "\<forall>z\<in>set zs. ?ks (new_order ord rem') < ?ks z"
    by (elim exE conjE)
  have p: "price (new_order ord rem') = price ord" by (simp add: new_order_def)
  have c2: "same_side obs' ord = ys @ zs \<or>
             (\<exists>r. same_side obs' ord = ys @ new_order ord r # zs)"
  proof (cases "rem' > 0")
    case True
    with ins have "same_side obs' ord = ys @ new_order ord rem' # zs"
      by (simp add: same rest_order_sort_key)
    then show ?thesis by blast
  next
    case False
    with split show ?thesis by (simp add: same)
  qed
  have c3: "\<forall>y\<in>set ys. if side ord = ''BUY'' then price ord \<le> price y
                         else price y \<le> price ord"
    using ys p by (simp split: if_splits)
  have c4: "\<forall>z\<in>set zs. if side ord = ''BUY'' then price z < price ord
                         else price ord < price z"
    using zs p by (simp split: if_splits)
  from split c2 c3 c4 show ?thesis by blast
qed

text \<open>
  Claim C2, amended. In every registry reachable from the empty one by processing orders
  whose prices are numbers, the buy list of each symbol is sorted by descending price and
  the sell list by ascending price. Resting orders are never reordered: processing any
  further order leaves the orders of the opposite list in their relative order (the list
  after the call is a subsequence of the list before, up to the quantity decremented in
  place), and leaves the same-side list as it was or inserts the residual into it after
  every resting order of equal or better price and before every resting order of strictly
  worse price. So orders of equal price stay in arrival order. (With an order whose price
  is NaN the claim fails, as the second embedding shows in the last section.)
\<close>

theorem book_ordering:
  assumes "reachable obs"
  shows "(\<forall>s bk. obs s = Some bk \<longrightarrow>
            sorted_wrt (\<lambda>a b. price a \<ge> price b) (buy bk) \<and>
            sorted_wrt (\<lambda>a b. price a \<le> price b) (sell bk)) \<and>
         (\<forall>ord obs' ts. on_order_received obs ord = Inr (obs', ts) \<longrightarrow>
            subseq (map order_key (opposite_side obs' ord))
                   (map order_key (opposite_side obs ord)) \<and>
            (\<exists>ys zs. same_side obs ord = ys @ zs \<and>
               (same_side obs' ord = ys @ zs \<or>
                (\<exists>r. same_side obs' ord = ys @ new_order ord r # zs)) \<and>
               (\<forall>y\<in>set ys. if side ord = ''BUY'' then price ord \<le> price y
                            else price y \<le> price ord) \<and>
               (\<forall>z\<in>set zs. if side ord = ''BUY'' then price z < price ord
                            else price ord < price z)))"
proof (intro conjI allI impI)
  fix s bk
  assume "obs s = Some bk"
  then have "book_of obs s = bk" by (simp add: book_of_def)
  with reachable_ordered [OF assms, of s]
  show "sorted_wrt (\<lambda>a b. price a \<ge> price b) (buy bk)"
    and "sorted_wrt (\<lambda>a b. price a \<le> price b) (sell bk)"
    by (simp_all add: ordered_book_def)
next
  fix ord obs' ts
  assume res: "on_order_received obs ord = Inr (obs', ts)"
  from process_sides [OF res] obtain opp' rem' where
    loop: "match_loop (symbol ord) (side ord) (username ord) (price ord)
             (opposite_side obs ord) (quantity ord) True [] = Inr (opp', rem', ts)"
    and opp: "opposite_side obs' ord = opp'"
    by (elim exE conjE)
  from match_loop_subseq [OF loop] opp
  show "subseq (map order_key (opposite_side obs' ord)) (map order_key (opposite_side obs ord))"
    by simp
  from same_side_fifo [OF reachable_ordered [OF assms] res]
  show "\<exists>ys zs. same_side obs ord = ys @ zs \<and>
               (same_side obs' ord = ys @ zs \<or>
                (\<exists>r. same_side obs' ord = ys @ new_order ord r # zs)) \<and>
               (\<forall>y\<in>set ys. if side ord = ''BUY'' then price ord \<le> price y
                            else price y \<le> price ord) \<and>
               (\<forall>z\<in>set zs. if side ord = ''BUY'' then price z < price ord
                            else price ord < price z)" .
qed

lemma reachable_three_asks: "reachable three_asks"
proof -
  have e1: "on_order_received Map.empty alice_sell =
      Inr ([''AAPL'' \<mapsto> \<lparr>buy = [], sell = [alice_sell]\<rparr>], [])"
    by (simp add: eval_defs alice_sell_def)
  have e2: "on_order_received [''AAPL'' \<mapsto> \<lparr>buy = [], sell = [alice_sell]\<rparr>] bob_sell =
      Inr (two_asks, [])"
    by (simp add: eval_defs two_asks_def alice_sell_def bob_sell_def)
  have e3: "on_order_received two_asks gina_sell = Inr (three_asks, [])"
    by (simp add: eval_defs two_asks_def three_asks_def alice_sell_def bob_sell_def gina_sell_def)
  from reachable_step [OF reachable_step [OF reachable_step [OF reachable_init e1] e2] e3]
  show ?thesis .
qed

theorem book_ordering_witness:
  "reachable three_asks \<and>
   three_asks ''AAPL'' = Some \<lparr>buy = [], sell = [gina_sell, alice_sell, bob_sell]\<rparr> \<and>
   sorted_wrt (\<lambda>a b. price a \<le> price b) [gina_sell, alice_sell, bob_sell] \<and>
   on_order_received three_asks henry_sell =
     Inr ([''AAPL'' \<mapsto> \<lparr>buy = [], sell = [gina_sell, alice_sell, bob_sell, henry_sell]\<rparr>], []) \<and>
   subseq (map order_key (opposite_side
              [''AAPL'' \<mapsto> \<lparr>buy = [], sell = [gina_sell, alice_sell, bob_sell, henry_sell]\<rparr>]
              henry_sell))
          (map order_key (opposite_side three_asks henry_sell))"
proof -
  have bk: "three_asks ''AAPL'' = Some \<lparr>buy = [], sell = [gina_sell, alice_sell, bob_sell]\<rparr>"
    by (simp add: three_asks_def)
  have run: "on_order_received three_asks henry_sell =
     Inr ([''AAPL'' \<mapsto> \<lparr>buy = [], sell = [gina_sell, alice_sell, bob_sell, henry_sell]\<rparr>], [])"
    by (simp add: eval_defs three_asks_def alice_sell_def bob_sell_def gina_sell_def
        henry_sell_def)
  note bo = book_ordering [OF reachable_three_asks]
  from bo bk have a: "sorted_wrt (\<lambda>a b. price a \<le> price b) (sell \<lparr>buy = [], sell = [gina_sell, alice_sell, bob_sell]\<rparr>)"
    by blast
  from bo run have b: "subseq (map order_key (opposite_side
              [''AAPL'' \<mapsto> \<lparr>buy = [], sell = [gina_sell, alice_sell, bob_sell, henry_sell]\<rparr>]
              henry_sell))
          (map order_key (opposite_side three_asks henry_sell))"
    by blast
  from a b bk run reachable_three_asks show ?thesis by simp
qed

section \<open>The loop consumes the sorted opposite list from its front\<close>

lemma sort_opposite_sort_key:
  "sort_opposite sd xs = sort_key (\<lambda>x. if sd = ''BUY'' then price x else - price x) xs"
  by (simp add: sort_opposite_def sort_asc_def sort_desc_def)

lemma match_condition_key:
  "match_condition sd (price x) prc \<longleftrightarrow>
     (if sd = ''BUY'' then price x else - price x) \<le> (if sd = ''BUY'' then prc else - prc)"
  by (simp add: match_condition_def)

lemma find_sorted_head:
  fixes f :: "'a \<Rightarrow> 'k::linorder"
  assumes "sorted (map f s)" "find (\<lambda>x. f x \<le> c) s = Some b"
  shows "\<exists>rest. s = b # rest"
proof (cases s)
  case Nil
  with assms(2) show ?thesis by simp
next
  case (Cons a rest)
  show ?thesis
  proof (cases "f a \<le> c")
    case True
    with assms(2) Cons show ?thesis by simp
  next
    case False
    with assms(2) Cons have "find (\<lambda>x. f x \<le> c) rest = Some b" by simp
    then have "b \<in> set rest" "f b \<le> c"
      by (auto simp: find_Some_iff)
    moreover from assms(1) Cons \<open>b \<in> set rest\<close> have "f a \<le> f b" by simp
    ultimately have "f a \<le> c" by simp
    with False show ?thesis by simp
  qed
qed

lemma crossing_head:
  assumes "crossing sd prc opp = Some b"
  shows "\<exists>rest. sort_opposite sd opp = b # rest"
proof -
  let ?k = "\<lambda>x. if sd = ''BUY'' then price x else - price x"
  have s: "sorted (map ?k (sort_opposite sd opp))"
    unfolding sort_opposite_sort_key by (rule sorted_sort_key)
  from assms have "find (\<lambda>x. ?k x \<le> (if sd = ''BUY'' then prc else - prc))
      (sort_opposite sd opp) = Some b"
    by (cases "sd = ''BUY''") (simp_all add: match_condition_def)
  from find_sorted_head [OF s this] show ?thesis .
qed

lemma sort_key_pop:
  fixes f :: "'a \<Rightarrow> 'k::linorder"
  assumes srt: "sort_key f xs = b # rest" and ix: "index_of xs b = Inr i"
  shows "sort_key f (take i xs @ drop (Suc i) xs) = rest"
proof (rule properties_for_sort_key)
  from index_of_Inr [OF ix] have i: "i < length xs" "xs ! i = b" "b \<notin> set (take i xs)"
    by simp_all
  from i(1,2) have xs: "xs = take i xs @ b # drop (Suc i) xs"
    using id_take_nth_drop [of i xs] by simp
  have "mset (b # rest) = mset xs" using srt [symmetric] by simp
  also have "\<dots> = mset (take i xs @ b # drop (Suc i) xs)" using xs by simp
  finally show "mset rest = mset (take i xs @ drop (Suc i) xs)" by simp
  from sorted_sort_key [of f xs] srt show "sorted (map f rest)" by simp
  fix k
  assume "k \<in> set rest"
  let ?P = "\<lambda>x. f k = f x"
  have "filter (\<lambda>y. f y = f k) (sort_key f xs) = filter (\<lambda>y. f y = f k) xs"
    by (rule sort_key_stable)
  moreover have "(\<lambda>y. f y = f k) = ?P" by auto
  ultimately have st: "filter ?P (b # rest) = filter ?P xs" using srt by simp
  have split: "filter ?P xs = filter ?P (take i xs) @ filter ?P [b] @ filter ?P (drop (Suc i) xs)"
    by (subst xs) simp
  show "filter ?P rest = filter ?P (take i xs @ drop (Suc i) xs)"
  proof (cases "?P b")
    case False
    with st split show ?thesis by simp
  next
    case True
    have nil: "filter ?P (take i xs) = []"
    proof (cases "filter ?P (take i xs)")
      case Nil
      then show ?thesis .
    next
      case (Cons c cs)
      with st split True have "c = b" by simp
      moreover from Cons have "c \<in> set (filter ?P (take i xs))" by simp
      ultimately have "b \<in> set (take i xs)" by simp
      with i(3) show ?thesis by simp
    qed
    with st split True show ?thesis by simp
  qed
qed

lemma drop_eq_Cons:
  assumes "drop n s = b # rest"
  shows "n < length s \<and> s ! n = b \<and> drop (Suc n) s = rest"
proof -
  from assms have n: "n < length s" by (cases "n < length s") simp_all
  from Cons_nth_drop_Suc [OF n] assms show ?thesis using n by simp
qed

lemma match_loop_front:
  assumes loop: "match_loop symb sd usr prc opp rem True [] = Inr (opp', rem', ts)"
  shows "length ts \<le> length (sort_opposite sd opp) \<and>
         (\<forall>j<length ts. \<exists>q.
            ts ! j = trade_info symb sd usr (sort_opposite sd opp ! j) q \<and>
            q \<le> quantity (sort_opposite sd opp ! j) \<and>
            (Suc j < length ts \<longrightarrow> q = quantity (sort_opposite sd opp ! j)))"
proof -
  let ?s0 = "sort_opposite sd opp"
  let ?T = "\<lambda>(trades1 :: trade list) (full :: bool) j q.
              trades1 ! j = trade_info symb sd usr (?s0 ! j) q \<and> q \<le> quantity (?s0 ! j) \<and>
              (Suc j < length trades1 \<or> full \<longrightarrow> q = quantity (?s0 ! j))"
  let ?I = "\<lambda>(opp1 :: order_rec list) (rem1 :: int) (trades1 :: trade list).
      length trades1 \<le> length ?s0 \<and>
      (rem1 > 0 \<longrightarrow> sort_opposite sd opp1 = drop (length trades1) ?s0) \<and>
      (\<forall>j<length trades1. \<exists>q. ?T trades1 (rem1 > 0) j q)"
  have "?I opp' rem' ts"
  proof (rule match_loop_invariant [where I = ?I, OF loop])
    show "?I opp rem []" by simp
  next
    fix opp1 :: "order_rec list" and rem1 :: int and trades1 :: "trade list"
      and b :: order_rec and i :: nat
    assume I: "?I opp1 rem1 trades1" and r: "rem1 > 0"
      and c: "crossing sd prc opp1 = Some b" and ix: "index_of opp1 b = Inr i"
      and le: "quantity b \<le> rem1"
    let ?n = "length trades1"
    let ?new = "trades1 @ [trade_info symb sd usr b (quantity b)]"
    from crossing_head [OF c] obtain rest where hd: "sort_opposite sd opp1 = b # rest"
      by (elim exE)
    with I r have "drop ?n ?s0 = b # rest" by simp
    from drop_eq_Cons [OF this] have n: "?n < length ?s0" "?s0 ! ?n = b"
      "drop (Suc ?n) ?s0 = rest" by simp_all
    from hd ix have "sort_opposite sd (take i opp1 @ drop (Suc i) opp1) = rest"
      unfolding sort_opposite_sort_key by (rule sort_key_pop)
    with n(3) have J2: "sort_opposite sd (take i opp1 @ drop (Suc i) opp1) =
        drop (length ?new) ?s0" by simp
    from n(1) have J1: "length ?new \<le> length ?s0" by simp
    have J3: "\<exists>q. ?T ?new full j q" if "j < length ?new" for j full
    proof (cases "j < ?n")
      case True
      with I r obtain q where "?T trades1 True j q" by blast
      with True have "?T ?new full j q" by (simp add: nth_append)
      then show ?thesis by blast
    next
      case False
      with that have j: "j = ?n" by simp
      have "?T ?new full j (quantity b)" by (simp add: j n(2))
      then show ?thesis by blast
    qed
    from J1 J2 J3 show "?I (take i opp1 @ drop (Suc i) opp1) (rem1 - quantity b) ?new"
      by blast
  next
    fix opp1 :: "order_rec list" and rem1 :: int and trades1 :: "trade list"
      and b :: order_rec and i :: nat
    assume I: "?I opp1 rem1 trades1" and r: "rem1 > 0"
      and c: "crossing sd prc opp1 = Some b" and ix: "index_of opp1 b = Inr i"
      and gt: "quantity b > rem1"
    let ?n = "length trades1"
    let ?new = "trades1 @ [trade_info symb sd usr b rem1]"
    from crossing_head [OF c] obtain rest where hd: "sort_opposite sd opp1 = b # rest"
      by (elim exE)
    with I r have "drop ?n ?s0 = b # rest" by simp
    from drop_eq_Cons [OF this] have n: "?n < length ?s0" "?s0 ! ?n = b" by simp_all
    from n(1) have J1: "length ?new \<le> length ?s0" by simp
    have J3: "\<exists>q. ?T ?new False j q" if "j < length ?new" for j
    proof (cases "j < ?n")
      case True
      with I r obtain q where "?T trades1 True j q" by blast
      with True have "?T ?new False j q" by (simp add: nth_append)
      then show ?thesis by blast
    next
      case False
      with that have j: "j = ?n" by simp
      from gt have "?T ?new False j rem1" by (simp add: j n(2))
      then show ?thesis by blast
    qed
    from J1 J3 show "?I (opp1[i := b\<lparr>quantity := quantity b - rem1\<rparr>]) 0 ?new"
      by simp
  qed
  then show ?thesis by blast
qed

section \<open>Time priority\<close>

lemma sort_opposite_stable:
  "filter (\<lambda>x. price x = p) (sort_opposite sd xs) = filter (\<lambda>x. price x = p) xs"
proof (cases "sd = ''BUY''")
  case True
  from sort_key_stable [of price p xs] True show ?thesis
    by (simp add: sort_opposite_def sort_asc_def)
next
  case False
  have "(\<lambda>x. - price x = - p) = (\<lambda>x. price x = p)" by auto
  with sort_key_stable [of "\<lambda>x. - price x" "- p" xs] False show ?thesis
    by (simp add: sort_opposite_def sort_desc_def)
qed

lemma sort_opposite_sorted:
  "sorted_wrt (\<lambda>a b. if sd = ''BUY'' then price a \<le> price b else price b \<le> price a)
     (sort_opposite sd xs)"
proof -
  have "sorted (map (\<lambda>x. if sd = ''BUY'' then price x else - price x) (sort_opposite sd xs))"
    unfolding sort_opposite_sort_key by (rule sorted_sort_key)
  then show ?thesis by (cases "sd = ''BUY''") (simp_all add: sorted_map)
qed

lemma reachable_sort_opposite:
  assumes "reachable obs"
  shows "sort_opposite (side ord) (opposite_side obs ord) = opposite_side obs ord"
proof -
  from reachable_ordered [OF assms, of "symbol ord"]
  have "sorted (map (\<lambda>x. (if side ord = ''BUY'' then price x else - price x))
          (opposite_side obs ord))"
    unfolding ordered_book_sides by simp
  then show ?thesis unfolding sort_opposite_sort_key by (rule sort_key_id_if_sorted)
qed

text \<open>
  Claim C5, amended: for books whose resting prices are numbers. Let \<open>s0\<close> be the
  opposite list in the order in which the loop visits it: sorted by price, best price
  first, by a stable sort, so that resting orders of equal price stand in \<open>s0\<close> in the
  order they have in the list, which is their order of arrival (in a reachable registry
  \<open>s0\<close> is the opposite list itself). Then the trades of an order are made with the
  resting orders of \<open>s0\<close> one after the other from its front: the trade number \<open>j\<close> is
  made with the resting order number \<open>j\<close>, for at most its quantity, and every trade but
  the last takes the whole quantity of its resting order. So of two resting orders of equal
  price the earlier is matched first, and the later is matched only once the earlier has
  been depleted. (With a resting order whose price is NaN the claim fails, as the
  second embedding shows in the last section.)
\<close>

theorem time_priority:
  assumes "on_order_received obs ord = Inr (obs', ts)"
    and "s0 = sort_opposite (side ord) (opposite_side obs ord)"
  shows "sorted_wrt (\<lambda>a b. if side ord = ''BUY'' then price a \<le> price b
                          else price b \<le> price a) s0 \<and>
         (\<forall>p. filter (\<lambda>x. price x = p) s0 =
              filter (\<lambda>x. price x = p) (opposite_side obs ord)) \<and>
         (reachable obs \<longrightarrow> s0 = opposite_side obs ord) \<and>
         length ts \<le> length s0 \<and>
         (\<forall>j<length ts. \<exists>q.
            ts ! j = trade_info (symbol ord) (side ord) (username ord) (s0 ! j) q \<and>
            q \<le> quantity (s0 ! j) \<and>
            (Suc j < length ts \<longrightarrow> q = quantity (s0 ! j)))"
proof -
  from process_sides [OF assms(1)] obtain opp' rem' where
    loop: "match_loop (symbol ord) (side ord) (username ord) (price ord)
             (opposite_side obs ord) (quantity ord) True [] = Inr (opp', rem', ts)"
    by (elim exE conjE)
  note front = match_loop_front [OF loop, folded assms(2)]
  have a: "sorted_wrt (\<lambda>a b. if side ord = ''BUY'' then price a \<le> price b
                          else price b \<le> price a) s0"
    unfolding assms(2) by (rule sort_opposite_sorted)
  have b: "\<forall>p. filter (\<lambda>x. price x = p) s0 =
              filter (\<lambda>x. price x = p) (opposite_side obs ord)"
    unfolding assms(2) by (simp add: sort_opposite_stable)
  have c: "reachable obs \<longrightarrow> s0 = opposite_side obs ord"
    unfolding assms(2) by (simp add: reachable_sort_opposite)
  from a b c front show ?thesis by blast
qed

theorem time_priority_witness:
  "on_order_received two_asks carol_buy =
     Inr ([''AAPL'' \<mapsto> \<lparr>buy = [], sell = [bob_sell\<lparr>quantity := 3\<rparr>]\<rparr>],
          [trade_info ''AAPL'' ''BUY'' ''carol'' alice_sell 5,
           trade_info ''AAPL'' ''BUY'' ''carol'' bob_sell 2]) \<and>
   [alice_sell, bob_sell] = sort_opposite (side carol_buy) (opposite_side two_asks carol_buy) \<and>
   price alice_sell = price bob_sell \<and>
   (\<exists>q. [trade_info ''AAPL'' ''BUY'' ''carol'' alice_sell 5,
          trade_info ''AAPL'' ''BUY'' ''carol'' bob_sell 2] ! 0 =
           trade_info (symbol carol_buy) (side carol_buy) (username carol_buy)
             ([alice_sell, bob_sell] ! 0) q \<and>
        q = quantity alice_sell)"
proof -
  have run: "on_order_received two_asks carol_buy =
     Inr ([''AAPL'' \<mapsto> \<lparr>buy = [], sell = [bob_sell\<lparr>quantity := 3\<rparr>]\<rparr>],
          [trade_info ''AAPL'' ''BUY'' ''carol'' alice_sell 5,
           trade_info ''AAPL'' ''BUY'' ''carol'' bob_sell 2])"
    by (simp add: eval_defs two_asks_def carol_buy_def alice_sell_def bob_sell_def)
  have s0: "[alice_sell, bob_sell] =
      sort_opposite (side carol_buy) (opposite_side two_asks carol_buy)"
    by (simp add: sort_opposite_def sort_asc_def opposite_side_def book_of_def two_asks_def
        carol_buy_def alice_sell_def bob_sell_def)
  have p: "price alice_sell = price bob_sell" by (simp add: alice_sell_def bob_sell_def)
  from time_priority [OF run s0]
  have "\<forall>j<length [trade_info ''AAPL'' ''BUY'' ''carol'' alice_sell 5,
           trade_info ''AAPL'' ''BUY'' ''carol'' bob_sell 2]. \<exists>q.
            [trade_info ''AAPL'' ''BUY'' ''carol'' alice_sell 5,
             trade_info ''AAPL'' ''BUY'' ''carol'' bob_sell 2] ! j =
              trade_info (symbol carol_buy) (side carol_buy) (username carol_buy)
                ([alice_sell, bob_sell] ! j) q \<and>
            q \<le> quantity ([alice_sell, bob_sell] ! j) \<and>
            (Suc j < length [trade_info ''AAPL'' ''BUY'' ''carol'' alice_sell 5,
               trade_info ''AAPL'' ''BUY'' ''carol'' bob_sell 2] \<longrightarrow>
               q = quantity ([alice_sell, bob_sell] ! j))"
    by (elim conjE)
  then have "\<exists>q. [trade_info ''AAPL'' ''BUY'' ''carol'' alice_sell 5,
          trade_info ''AAPL'' ''BUY'' ''carol'' bob_sell 2] ! 0 =
           trade_info (symbol carol_buy) (side carol_buy) (username carol_buy)
             ([alice_sell, bob_sell] ! 0) q \<and>
        q = quantity alice_sell"
    by (elim allE [of _ 0]) simp
  with run s0 p show ?thesis by (intro conjI)
qed

section \<open>The sort of CPython on keys in a linear order\<close>

lemma bisect_spec:
  fixes f :: "'a \<Rightarrow> 'k::linorder"
  assumes lt: "\<And>y. y \<in> set xs \<Longrightarrow> lt pivot y = (f pivot < f y)"
    and srt: "sorted (map f xs)"
  shows "l \<le> r \<Longrightarrow> r \<le> length xs \<Longrightarrow>
         (\<forall>i<l. f (xs ! i) \<le> f pivot) \<Longrightarrow>
         (\<forall>i. r \<le> i \<and> i < length xs \<longrightarrow> f pivot < f (xs ! i)) \<Longrightarrow>
         bisect lt pivot xs l r \<le> length xs \<and>
         (\<forall>i<bisect lt pivot xs l r. f (xs ! i) \<le> f pivot) \<and>
         (\<forall>i. bisect lt pivot xs l r \<le> i \<and> i < length xs \<longrightarrow> f pivot < f (xs ! i))"
proof (induction "r - l" arbitrary: l r rule: less_induct)
  case less
  from srt have mono: "f (xs ! i) \<le> f (xs ! j)" if "i \<le> j" "j < length xs" for i j
    using that sorted_iff_nth_mono [of "map f xs"] by simp
  show ?case
  proof (cases "l < r")
    case False
    with less.prems have "l = r" by simp
    then have "bisect lt pivot xs l r = r" by (subst bisect.simps) simp
    with less.prems \<open>l = r\<close> show ?thesis by simp
  next
    case True
    define p where "p = l + (r - l) div 2"
    from True have lp: "l \<le> p" and pr: "p < r" by (simp_all add: p_def)
    with less.prems(2) have pl: "p < length xs" by simp
    then have mem: "xs ! p \<in> set xs" by simp
    show ?thesis
    proof (cases "lt pivot (xs ! p)")
      case lt_true: True
      with lt [OF mem] have fp: "f pivot < f (xs ! p)" by simp
      from True lt_true have eq: "bisect lt pivot xs l r = bisect lt pivot xs l p"
        by (subst bisect.simps) (simp add: p_def Let_def)
      have up: "\<forall>i. p \<le> i \<and> i < length xs \<longrightarrow> f pivot < f (xs ! i)"
      proof (intro allI impI)
        fix i assume "p \<le> i \<and> i < length xs"
        then have "f (xs ! p) \<le> f (xs ! i)" using mono by simp
        with fp show "f pivot < f (xs ! i)" by simp
      qed
      have "p - l < r - l" using lp pr by simp
      from less.hyps [OF this lp _ less.prems(3) up] pl show ?thesis
        unfolding eq by simp
    next
      case lt_false: False
      with lt [OF mem] have fp: "f (xs ! p) \<le> f pivot" by simp
      from True lt_false have eq: "bisect lt pivot xs l r = bisect lt pivot xs (p + 1) r"
        by (subst bisect.simps) (simp add: p_def Let_def)
      have lo: "\<forall>i<p + 1. f (xs ! i) \<le> f pivot"
      proof (intro allI impI)
        fix i assume "i < p + 1"
        then have "i \<le> p" by simp
        from mono [OF this pl] fp show "f (xs ! i) \<le> f pivot" by simp
      qed
      have "r - (p + 1) < r - l" using lp pr by simp
      moreover have "p + 1 \<le> r" using pr by simp
      ultimately show ?thesis
        using less.hyps [of r "p + 1"] less.prems(2,4) lo unfolding eq by simp
    qed
  qed
qed

lemma binary_insert_spec:
  fixes f :: "'a \<Rightarrow> 'k::linorder"
  assumes lt: "\<And>y. y \<in> set xs \<Longrightarrow> lt pivot y = (f pivot < f y)"
    and srt: "sorted (map f xs)"
  shows "\<exists>k \<le> length xs. binary_insert lt xs pivot = take k xs @ pivot # drop k xs \<and>
           (\<forall>y\<in>set (take k xs). f y \<le> f pivot) \<and> (\<forall>y\<in>set (drop k xs). f pivot < f y)"
proof -
  let ?k = "bisect lt pivot xs 0 (length xs)"
  have vac: "\<forall>i. length xs \<le> i \<and> i < length xs \<longrightarrow> f pivot < f (xs ! i)" by auto
  have low: "\<forall>i<(0::nat). f (xs ! i) \<le> f pivot" by simp
  have "bisect lt pivot xs 0 (length xs) \<le> length xs \<and>
         (\<forall>i<bisect lt pivot xs 0 (length xs). f (xs ! i) \<le> f pivot) \<and>
         (\<forall>i. bisect lt pivot xs 0 (length xs) \<le> i \<and> i < length xs \<longrightarrow> f pivot < f (xs ! i))"
    by (rule bisect_spec [where f = f and lt = lt and pivot = pivot and xs = xs and l = 0
          and r = "length xs", OF lt srt _ _ low vac]) simp_all
  then have k: "?k \<le> length xs" "\<forall>i<?k. f (xs ! i) \<le> f pivot"
    "\<forall>i. ?k \<le> i \<and> i < length xs \<longrightarrow> f pivot < f (xs ! i)"
    by simp_all
  have a: "\<forall>y\<in>set (take ?k xs). f y \<le> f pivot"
  proof
    fix y assume "y \<in> set (take ?k xs)"
    then obtain i where "i < length (take ?k xs)" "take ?k xs ! i = y"
      by (auto simp: in_set_conv_nth)
    with k(1,2) show "f y \<le> f pivot" by auto
  qed
  have b: "\<forall>y\<in>set (drop ?k xs). f pivot < f y"
  proof
    fix y assume "y \<in> set (drop ?k xs)"
    then obtain i where "i < length (drop ?k xs)" "drop ?k xs ! i = y"
      by (auto simp: in_set_conv_nth)
    with k(1,3) show "f pivot < f y" by (auto simp: nth_drop)
  qed
  have "binary_insert lt xs pivot = take ?k xs @ pivot # drop ?k xs"
    by (simp add: binary_insert_def Let_def)
  with k(1) a b show ?thesis by blast
qed

lemma binary_insert_stable:
  fixes f :: "'a \<Rightarrow> 'k::linorder"
  assumes lt: "\<And>y. y \<in> set ys \<Longrightarrow> lt pivot y = (f pivot < f y)"
    and srt: "sorted (map f ys)"
    and ms: "mset ys = mset pre"
    and st: "\<And>c. filter (\<lambda>x. f x = c) ys = filter (\<lambda>x. f x = c) pre"
  shows "sorted (map f (binary_insert lt ys pivot)) \<and>
         mset (binary_insert lt ys pivot) = mset (pre @ [pivot]) \<and>
         (\<forall>c. filter (\<lambda>x. f x = c) (binary_insert lt ys pivot) =
              filter (\<lambda>x. f x = c) (pre @ [pivot]))"
proof -
  from binary_insert_spec [where f = f and lt = lt and pivot = pivot and xs = ys, OF lt srt]
  obtain k where k: "k \<le> length ys"
    and eq: "binary_insert lt ys pivot = take k ys @ pivot # drop k ys"
    and lo: "\<forall>y\<in>set (take k ys). f y \<le> f pivot"
    and hi: "\<forall>y\<in>set (drop k ys). f pivot < f y"
    by blast
  have split: "ys = take k ys @ drop k ys" by simp
  from srt have "sorted (map f (take k ys @ drop k ys))" by simp
  then have s1: "sorted (map f (take k ys))" and s2: "sorted (map f (drop k ys))"
    unfolding map_append sorted_append by simp_all
  have cross: "f x \<le> f z" if "x \<in> set (take k ys)" "z \<in> set (drop k ys)" for x z
  proof -
    from lo that(1) have "f x \<le> f pivot" by simp
    moreover from hi that(2) have "f pivot < f z" by simp
    ultimately show ?thesis by simp
  qed
  have a: "sorted (map f (take k ys @ pivot # drop k ys))"
    unfolding map_append sorted_append using s1 s2 lo hi cross by (auto intro: less_imp_le)
  have "mset (take k ys) + mset (drop k ys) = mset (take k ys @ drop k ys)"
    by (rule mset_append [symmetric])
  also have "\<dots> = mset ys" by (simp only: append_take_drop_id)
  also note ms
  finally have td: "mset (take k ys) + mset (drop k ys) = mset pre" .
  have b: "mset (take k ys @ pivot # drop k ys) = mset (pre @ [pivot])"
    using td by simp
  have c: "filter (\<lambda>x. f x = c) (take k ys @ pivot # drop k ys) =
             filter (\<lambda>x. f x = c) (pre @ [pivot])" for c
  proof -
    have pre: "filter (\<lambda>x. f x = c) pre =
        filter (\<lambda>x. f x = c) (take k ys) @ filter (\<lambda>x. f x = c) (drop k ys)"
      using st [of c, symmetric] split by (metis filter_append)
    show ?thesis
    proof (cases "f pivot = c")
      case True
      with hi have "filter (\<lambda>x. f x = c) (drop k ys) = []"
        by (auto simp: filter_empty_conv)
      with True pre show ?thesis by simp
    next
      case False
      with pre show ?thesis by simp
    qed
  qed
  from a b c show ?thesis unfolding eq by blast
qed

lemma foldl_binary_insert_stable:
  fixes f :: "'a \<Rightarrow> 'k::linorder"
  assumes lt: "\<And>a b. a \<in> A \<Longrightarrow> b \<in> A \<Longrightarrow> lt a b = (f a < f b)"
  shows "set pre \<union> set rest \<subseteq> A \<Longrightarrow> sorted (map f acc) \<Longrightarrow> mset acc = mset pre \<Longrightarrow>
         (\<And>c. filter (\<lambda>x. f x = c) acc = filter (\<lambda>x. f x = c) pre) \<Longrightarrow>
         sorted (map f (foldl (binary_insert lt) acc rest)) \<and>
         mset (foldl (binary_insert lt) acc rest) = mset (pre @ rest) \<and>
         (\<forall>c. filter (\<lambda>x. f x = c) (foldl (binary_insert lt) acc rest) =
              filter (\<lambda>x. f x = c) (pre @ rest))"
proof (induction rest arbitrary: acc pre)
  case Nil
  then show ?case by simp
next
  case (Cons pivot rest)
  from Cons.prems(3) have sets: "set acc = set pre" by (rule mset_eq_setD)
  have ltp: "lt pivot y = (f pivot < f y)" if "y \<in> set acc" for y
    using that sets Cons.prems(1) by (intro lt) auto
  from binary_insert_stable [where f = f and lt = lt and pivot = pivot and ys = acc
      and pre = pre, OF ltp Cons.prems(2,3,4)]
  have s: "sorted (map f (binary_insert lt acc pivot))"
    and m: "mset (binary_insert lt acc pivot) = mset (pre @ [pivot])"
    and st: "\<And>c. filter (\<lambda>x. f x = c) (binary_insert lt acc pivot) =
              filter (\<lambda>x. f x = c) (pre @ [pivot])"
    by simp_all
  have sub: "set (pre @ [pivot]) \<union> set rest \<subseteq> A" using Cons.prems(1) by auto
  from Cons.IH [OF sub s m st] show ?case by simp
qed

lemma run_asc_sorted:
  fixes f :: "'a \<Rightarrow> 'k::linorder"
  assumes lt: "\<And>a b. a \<in> A \<Longrightarrow> b \<in> A \<Longrightarrow> lt a b = (f a < f b)"
  shows "insert x (set rest) \<subseteq> A \<Longrightarrow> sorted (map f (x # take (run_asc lt x rest) rest))"
proof (induction rest arbitrary: x)
  case Nil
  show ?case by simp
next
  case (Cons y rest)
  from Cons.prems have xy: "x \<in> A" "y \<in> A" and sub: "insert y (set rest) \<subseteq> A" by auto
  show ?case
  proof (cases "lt y x")
    case True
    then show ?thesis by simp
  next
    case False
    with lt [OF xy(2,1)] have le: "f x \<le> f y" by simp
    from Cons.IH [OF sub] have IH: "sorted (map f (y # take (run_asc lt y rest) rest))" .
    then have "\<forall>z\<in>set (take (run_asc lt y rest) rest). f y \<le> f z" by simp
    with le have "\<forall>z\<in>set (y # take (run_asc lt y rest) rest). f x \<le> f z"
      by (auto intro: order_trans)
    with IH False show ?thesis by simp
  qed
qed

lemma run_desc_strict:
  fixes f :: "'a \<Rightarrow> 'k::linorder"
  assumes lt: "\<And>a b. a \<in> A \<Longrightarrow> b \<in> A \<Longrightarrow> lt a b = (f a < f b)"
  shows "insert x (set rest) \<subseteq> A \<Longrightarrow>
         sorted_wrt (\<lambda>a b. f b < f a) (x # take (run_desc lt x rest) rest)"
proof (induction rest arbitrary: x)
  case Nil
  show ?case by simp
next
  case (Cons y rest)
  from Cons.prems have xy: "x \<in> A" "y \<in> A" and sub: "insert y (set rest) \<subseteq> A" by auto
  show ?case
  proof (cases "lt y x")
    case False
    then show ?thesis by simp
  next
    case True
    with lt [OF xy(2,1)] have yx: "f y < f x" by simp
    from Cons.IH [OF sub] have IH: "sorted_wrt (\<lambda>a b. f b < f a)
        (y # take (run_desc lt y rest) rest)" .
    then have "\<forall>z\<in>set (take (run_desc lt y rest) rest). f z < f y" by simp
    with yx have "\<forall>z\<in>set (y # take (run_desc lt y rest) rest). f z < f x" by auto
    with IH True show ?thesis by simp
  qed
qed

lemma strict_desc_filter:
  fixes f :: "'a \<Rightarrow> 'k::linorder"
  assumes "sorted_wrt (\<lambda>a b. f b < f a) ys"
  shows "length (filter (\<lambda>x. f x = c) ys) \<le> 1"
  using assms
proof (induction ys)
  case Nil
  show ?case by simp
next
  case (Cons y ys)
  show ?case
  proof (cases "f y = c")
    case True
    with Cons.prems have "\<forall>z\<in>set ys. f z \<noteq> c" by auto
    then have "filter (\<lambda>x. f x = c) ys = []" by (auto simp: filter_empty_conv)
    with True show ?thesis by simp
  next
    case False
    with Cons show ?thesis by simp
  qed
qed

lemma rev_short: "length xs \<le> 1 \<Longrightarrow> rev xs = xs"
  by (cases xs) (simp_all)

lemma strict_desc_rev:
  fixes f :: "'a \<Rightarrow> 'k::linorder"
  assumes "sorted_wrt (\<lambda>a b. f b < f a) ys"
  shows "sorted (map f (rev ys)) \<and>
         (\<forall>c. filter (\<lambda>x. f x = c) (rev ys) = filter (\<lambda>x. f x = c) ys)"
proof -
  from assms have "sorted_wrt (\<lambda>a b. f a < f b) (rev ys)" by (simp add: sorted_wrt_rev)
  then have "sorted_wrt (\<lambda>a b. f a \<le> f b) (rev ys)"
    by (rule sorted_wrt_mono_rel [rotated]) simp
  then have a: "sorted (map f (rev ys))" by (simp add: sorted_map)
  have b: "filter (\<lambda>x. f x = c) (rev ys) = filter (\<lambda>x. f x = c) ys" for c
    using rev_short [OF strict_desc_filter [OF assms, of c]] by (simp add: rev_filter)
  from a b show ?thesis by blast
qed

lemma stable_sorted_sort_key:
  fixes f :: "'a \<Rightarrow> 'k::linorder"
  assumes "sorted (map f ys)" "mset ys = mset xs"
    and st: "\<And>c. filter (\<lambda>x. f x = c) ys = filter (\<lambda>x. f x = c) xs"
  shows "ys = sort_key f xs"
proof (rule properties_for_sort_key [symmetric])
  show "mset ys = mset xs" by (rule assms(2))
  show "sorted (map f ys)" by (rule assms(1))
  fix k
  have "(\<lambda>x. f k = f x) = (\<lambda>x. f x = f k)" by auto
  with st [of "f k"] show "filter (\<lambda>x. f k = f x) ys = filter (\<lambda>x. f k = f x) xs" by simp
qed

lemma list_sort_sort_key:
  fixes f :: "'a \<Rightarrow> 'k::linorder"
  assumes lt: "\<And>a b. a \<in> set xs \<Longrightarrow> b \<in> set xs \<Longrightarrow> lt a b = (f a < f b)"
  shows "list_sort lt xs = sort_key f xs"
proof (cases xs)
  case Nil
  then show ?thesis by (simp add: list_sort_def)
next
  case (Cons x rest)
  define descending where "descending = (case rest of [] \<Rightarrow> False | y # _ \<Rightarrow> lt y x)"
  define m where "m = (if descending then run_desc lt x rest else run_asc lt x rest)"
  define run where "run = (if descending then rev (take (Suc m) xs) else take (Suc m) xs)"
  have ls: "list_sort lt xs = foldl (binary_insert lt) run (drop (Suc m) xs)"
    unfolding list_sort_def Cons run_def m_def descending_def by (simp add: Let_def)
  have tk: "take (Suc k) xs = x # take k rest" for k by (simp add: Cons)
  have sub: "insert x (set rest) \<subseteq> set xs" by (simp add: Cons)
  have run_ok: "sorted (map f run) \<and> mset run = mset (take (Suc m) xs) \<and>
      (\<forall>c. filter (\<lambda>x. f x = c) run = filter (\<lambda>x. f x = c) (take (Suc m) xs))"
  proof (cases descending)
    case True
    from run_desc_strict [where f = f and lt = lt and A = "set xs", OF lt sub]
    have "sorted_wrt (\<lambda>a b. f b < f a) (take (Suc m) xs)"
      using True by (simp only: tk m_def if_True)
    from strict_desc_rev [OF this] True show ?thesis by (simp add: run_def)
  next
    case False
    from run_asc_sorted [where f = f and lt = lt and A = "set xs", OF lt sub]
    have "sorted (map f (take (Suc m) xs))"
      using False by (simp only: tk m_def if_False)
    with False show ?thesis by (simp add: run_def)
  qed
  have sets: "set (take (Suc m) xs) \<union> set (drop (Suc m) xs) \<subseteq> set xs"
    using set_take_subset [of "Suc m" xs] set_drop_subset [of "Suc m" xs] by auto
  from run_ok have r1: "sorted (map f run)" and r2: "mset run = mset (take (Suc m) xs)"
    and r3: "\<And>c. filter (\<lambda>x. f x = c) run = filter (\<lambda>x. f x = c) (take (Suc m) xs)"
    by simp_all
  from foldl_binary_insert_stable [where f = f and lt = lt and A = "set xs"
      and pre = "take (Suc m) xs" and rest = "drop (Suc m) xs" and acc = run,
      OF lt sets r1 r2 r3]
  have "sorted (map f (list_sort lt xs))" "mset (list_sort lt xs) = mset xs"
    "\<And>c. filter (\<lambda>x. f x = c) (list_sort lt xs) = filter (\<lambda>x. f x = c) xs"
    unfolding ls by simp_all
  then show ?thesis by (rule stable_sorted_sort_key)
qed

lemma rev_sort_key_rev:
  fixes f :: "'a \<Rightarrow> real"
  shows "rev (sort_key f (rev xs)) = sort_key (\<lambda>x. - f x) xs"
proof (rule stable_sorted_sort_key)
  have "sorted (map f (sort_key f (rev xs)))" by (rule sorted_sort_key)
  then have "sorted_wrt (\<lambda>a b. f a \<le> f b) (sort_key f (rev xs))" by (simp add: sorted_map)
  then have "sorted_wrt (\<lambda>a b. - f a \<le> - f b) (rev (sort_key f (rev xs)))"
    by (simp add: sorted_wrt_rev)
  then show "sorted (map (\<lambda>x. - f x) (rev (sort_key f (rev xs))))" by (simp add: sorted_map)
  show "mset (rev (sort_key f (rev xs))) = mset xs" by simp
  fix c
  have e: "(\<lambda>x. - f x = c) = (\<lambda>x. f x = - c)" by auto
  have "filter (\<lambda>x. f x = - c) (rev (sort_key f (rev xs))) =
          rev (filter (\<lambda>x. f x = - c) (sort_key f (rev xs)))" by (simp add: rev_filter)
  also have "\<dots> = rev (filter (\<lambda>x. f x = - c) (rev xs))" by (simp only: sort_key_stable)
  also have "\<dots> = filter (\<lambda>x. f x = - c) xs" by (simp add: rev_filter)
  finally show "filter (\<lambda>x. - f x = c) (rev (sort_key f (rev xs))) =
      filter (\<lambda>x. - f x = c) xs" unfolding e .
qed

section \<open>Agreement of the two embeddings on numeric prices\<close>

lemma insort_key_map:
  "insort_key f (h x) (map h ys) = map h (insort_key (\<lambda>y. f (h y)) x ys)"
  by (induction ys) simp_all

lemma sort_key_map:
  "sort_key f (map h xs) = map h (sort_key (\<lambda>y. f (h y)) xs)"
  by (induction xs) (simp_all add: insort_key_map)

lemma find_map:
  "find P (map h xs) = map_option h (find (\<lambda>x. P (h x)) xs)"
  by (induction xs) simp_all

lemma inj_to_f: "to_f a = to_f b \<Longrightarrow> a = b"
  by (cases a, cases b) (simp add: to_f_def)

lemma index_of_map_to_f:
  "index_of (map to_f xs) (to_f y) = index_of xs y"
  by (induction xs) (auto dest: inj_to_f)

lemma price_f_to_f [simp]: "price_f (to_f ord) = Num (price ord)"
  by (simp add: to_f_def)

lemma quantity_f_to_f [simp]: "quantity_f (to_f ord) = quantity ord"
  by (simp add: to_f_def)

lemma match_condition_f_Num [simp]:
  "match_condition_f sd (Num a) (Num b) = match_condition sd a b"
  by (simp add: match_condition_f_def match_condition_def)

lemma trade_info_f_to_f:
  "trade_info_f symb sd usr (to_f b) q = trade_to_f (trade_info symb sd usr b q)"
  by (simp add: trade_info_f_def trade_info_def trade_to_f_def to_f_def)

text \<open>On orders with numeric prices the sort of CPython is the stable sort.\<close>

lemma py_sorted_to_f:
  "py_sorted price_f reverse (map to_f xs) =
     map to_f (sort_key (\<lambda>x. if reverse then - price x else price x) xs)"
proof -
  let ?lt = "\<lambda>a b. float_lt (price_f a) (price_f b)"
  let ?g = "\<lambda>a. num_of (price_f a)"
  have lt: "?lt a b = (?g a < ?g b)" if "a \<in> set (map to_f ys)" "b \<in> set (map to_f ys)"
    for a b and ys :: "order_rec list"
    using that by auto
  have asc: "list_sort ?lt (map to_f ys) = sort_key ?g (map to_f ys)"
    for ys :: "order_rec list"
    by (rule list_sort_sort_key [where f = ?g]) (rule lt)
  show ?thesis
  proof (cases reverse)
    case False
    with asc [of xs] show ?thesis by (simp add: py_sorted_def sort_key_map)
  next
    case True
    have "rev (list_sort ?lt (rev (map to_f xs))) = rev (sort_key ?g (rev (map to_f xs)))"
      using asc [of "rev xs"] by (simp add: rev_map)
    also have "\<dots> = sort_key (\<lambda>a. - ?g a) (map to_f xs)" by (rule rev_sort_key_rev)
    also have "\<dots> = map to_f (sort_key (\<lambda>x. - price x) xs)" by (simp add: sort_key_map)
    finally show ?thesis using True by (simp add: py_sorted_def)
  qed
qed

lemma rest_order_f_to_f:
  "rest_order_f sd (map to_f xs) (to_f x) = map to_f (rest_order sd xs x)"
proof -
  have "rest_order_f sd (map to_f xs) (to_f x) = py_sorted price_f (sd = ''BUY'') (map to_f (xs @ [x]))"
    by (simp add: rest_order_f_def)
  also have "\<dots> = map to_f (sort_key (\<lambda>y. if sd = ''BUY'' then - price y else price y) (xs @ [x]))"
    by (rule py_sorted_to_f)
  also have "\<dots> = map to_f (rest_order sd xs x)"
    by (simp add: rest_order_def sort_asc_def sort_desc_def)
  finally show ?thesis .
qed

lemma float_lt_num_of:
  "a \<noteq> NaN \<Longrightarrow> b \<noteq> NaN \<Longrightarrow> float_lt a b = (num_of a < num_of b)"
  by (cases a; cases b) simp_all

lemma py_sorted_numeric:
  assumes num: "\<forall>a\<in>set xs. key a \<noteq> NaN"
  shows "py_sorted key reverse xs =
           sort_key (\<lambda>x. if reverse then - num_of (key x) else num_of (key x)) xs"
proof -
  let ?lt = "\<lambda>a b. float_lt (key a) (key b)"
  let ?g = "\<lambda>a. num_of (key a)"
  have asc: "list_sort ?lt ys = sort_key ?g ys" if "set ys \<subseteq> set xs" for ys
  proof (rule list_sort_sort_key [where f = ?g])
    fix a b
    assume "a \<in> set ys" "b \<in> set ys"
    with that num have "key a \<noteq> NaN" "key b \<noteq> NaN" by auto
    then show "?lt a b = (?g a < ?g b)" by (rule float_lt_num_of)
  qed
  show ?thesis
  proof (cases reverse)
    case False
    with asc [of xs] show ?thesis by (simp add: py_sorted_def)
  next
    case True
    have "rev (list_sort ?lt (rev xs)) = rev (sort_key ?g (rev xs))"
      using asc [of "rev xs"] by simp
    also have "\<dots> = sort_key (\<lambda>a. - ?g a) xs" by (rule rev_sort_key_rev)
    finally show ?thesis using True by (simp add: py_sorted_def)
  qed
qed

lemma enumerate_to_f_numeric:
  "\<forall>a\<in>set (enumerate 0 (map to_f opp)). price_f (snd a) \<noteq> NaN"
  by (auto simp: in_set_enumerate_eq)

text \<open>The key by which the opposite list is sorted, on orders and on the pairs of a
  position and an embedded order.\<close>

lemma sort_opposite_f_sort_key:
  "sort_opposite_f sd (enumerate 0 (map to_f opp)) =
     sort_key (\<lambda>e. if sd = ''BUY'' then num_of (price_f (snd e)) else - num_of (price_f (snd e)))
       (enumerate 0 (map to_f opp))"
proof -
  have k: "(\<lambda>x. if sd \<noteq> ''BUY'' then - num_of (price_f (snd x)) else num_of (price_f (snd x))) =
      (\<lambda>e :: nat \<times> order_f. if sd = ''BUY'' then num_of (price_f (snd e))
            else - num_of (price_f (snd e)))"
    by (rule ext) simp
  from py_sorted_numeric [where key = "\<lambda>x. price_f (snd x)" and reverse = "sd \<noteq> ''BUY''"
      and xs = "enumerate 0 (map to_f opp)", OF enumerate_to_f_numeric]
  show ?thesis unfolding sort_opposite_f_def k .
qed

lemma map_snd_sort_opposite_f:
  "map snd (sort_opposite_f sd (enumerate 0 (map to_f opp))) = map to_f (sort_opposite sd opp)"
proof -
  let ?k = "\<lambda>o'. if sd = ''BUY'' then num_of (price_f o') else - num_of (price_f o')"
  have "map snd (sort_opposite_f sd (enumerate 0 (map to_f opp))) =
          map snd (sort_key (\<lambda>e. ?k (snd e)) (enumerate 0 (map to_f opp)))"
    by (simp add: sort_opposite_f_sort_key)
  also have "\<dots> = sort_key ?k (map snd (enumerate 0 (map to_f opp)))"
    by (rule sort_key_map [symmetric])
  also have "\<dots> = sort_key ?k (map to_f opp)" by simp
  also have "\<dots> = map to_f (sort_key (\<lambda>y. ?k (to_f y)) opp)" by (rule sort_key_map)
  also have "(\<lambda>y. ?k (to_f y)) = (\<lambda>x. if sd = ''BUY'' then price x else - price x)"
    by (rule ext) simp
  also have "map to_f (sort_key (\<lambda>x. if sd = ''BUY'' then price x else - price x) opp) =
      map to_f (sort_opposite sd opp)"
    by (simp only: sort_opposite_sort_key)
  finally show ?thesis .
qed

lemma crossing_f_option:
  "map_option snd
     (find (\<lambda>e. match_condition_f sd (price_f (snd e)) (Num prc))
        (sort_opposite_f sd (enumerate 0 (map to_f opp)))) =
   map_option to_f (crossing sd prc opp)"
proof -
  let ?s = "sort_opposite_f sd (enumerate 0 (map to_f opp))"
  have "map_option snd (find (\<lambda>e. match_condition_f sd (price_f (snd e)) (Num prc)) ?s) =
        find (\<lambda>o'. match_condition_f sd (price_f o') (Num prc)) (map snd ?s)"
    by (simp add: find_map)
  also have "\<dots> = find (\<lambda>o'. match_condition_f sd (price_f o') (Num prc))
                      (map to_f (sort_opposite sd opp))"
    by (simp only: map_snd_sort_opposite_f)
  also have "\<dots> = map_option to_f (crossing sd prc opp)"
    by (simp add: find_map)
  finally show ?thesis .
qed

lemma filter_head_in_prefix:
  "filter Q xs = e # fs \<Longrightarrow> i < length xs \<Longrightarrow> Q (xs ! i) \<Longrightarrow>
     e \<in> set (take (Suc i) xs)"
proof (induction xs arbitrary: i)
  case Nil
  then show ?case by simp
next
  case (Cons x xs)
  show ?case
  proof (cases "Q x")
    case True
    with Cons.prems(1) show ?thesis by simp
  next
    case False
    with Cons.prems(3) obtain i' where i': "i = Suc i'" by (cases i) auto
    from False Cons.prems(1) have f: "filter Q xs = e # fs" by simp
    from Cons.prems(2,3) i' have "i' < length xs" "Q (xs ! i')" by simp_all
    from Cons.IH [OF f this] i' show ?thesis by simp
  qed
qed

lemma crossing_f_Some:
  assumes fnd: "find (\<lambda>e. match_condition_f sd (price_f (snd e)) (Num prc))
                  (sort_opposite_f sd (enumerate 0 (map to_f opp))) = Some e"
  shows "\<exists>b i. crossing sd prc opp = Some b \<and> snd e = to_f b \<and>
               index_of opp b = Inr i \<and> fst e = i"
proof -
  let ?ps = "enumerate 0 (map to_f opp)"
  let ?kf = "\<lambda>e :: nat \<times> order_f. if sd = ''BUY'' then num_of (price_f (snd e))
                else - num_of (price_f (snd e))"
  let ?s = "sort_opposite_f sd ?ps"
  let ?c = "if sd = ''BUY'' then prc else - prc"
  have s: "?s = sort_key ?kf ?ps" by (rule sort_opposite_f_sort_key)
  from crossing_f_option [of sd prc opp] fnd
  have "map_option to_f (crossing sd prc opp) = Some (snd e)" by simp
  then obtain b where b: "crossing sd prc opp = Some b" "snd e = to_f b" by auto
  from crossing_index [OF b(1)] obtain i where ix: "index_of opp b = Inr i" by (elim exE)
  from index_of_Inr [OF ix] have i: "i < length opp" "opp ! i = b" "b \<notin> set (take i opp)"
    by simp_all
  from fnd have "e \<in> set ?s" by (auto simp: find_Some_iff)
  then have eps: "e \<in> set ?ps" by (simp add: s)
  then have e1: "fst e < length opp" and e2: "snd e = map to_f opp ! fst e"
    by (simp_all add: in_set_enumerate_eq)
  from e1 e2 b(2) have "to_f (opp ! fst e) = to_f b" by simp
  then have oe: "opp ! fst e = b" by (rule inj_to_f)
  have lower: "i \<le> fst e"
  proof (rule ccontr)
    assume "\<not> i \<le> fst e"
    then have "fst e < i" by simp
    with i(1) have "opp ! fst e \<in> set (take i opp)"
      by (auto simp: in_set_conv_nth intro!: exI [of _ "fst e"])
    with oe i(3) show False by simp
  qed
  have num: "price_f (snd x) \<noteq> NaN" if "x \<in> set ?s" for x
    using that enumerate_to_f_numeric [of opp] by (simp add: s)
  have pred: "match_condition_f sd (price_f (snd x)) (Num prc) = (?kf x \<le> ?c)"
    if "x \<in> set ?s" for x
  proof -
    from num [OF that] obtain r where "price_f (snd x) = Num r" by (cases "price_f (snd x)") auto
    then show ?thesis by (simp add: match_condition_def)
  qed
  have "find (\<lambda>x. ?kf x \<le> ?c) ?s = Some e"
    using fnd find_cong [OF refl pred, of ?s] by simp
  moreover have "sorted (map ?kf ?s)" unfolding s by (rule sorted_sort_key)
  ultimately obtain rest where hd: "?s = e # rest"
    using find_sorted_head [where f = ?kf and s = ?s and c = ?c and b = e] by blast
  let ?Q = "\<lambda>x. ?kf x = ?kf e"
  have "filter ?Q ?s = filter ?Q ?ps" unfolding s by (rule sort_key_stable)
  with hd have fq: "filter ?Q ?ps = e # filter ?Q rest" by simp
  have pi: "?ps ! i = (i, to_f b)" using i(1,2) by (simp add: nth_enumerate_eq)
  have il: "i < length ?ps" using i(1) by simp
  have qi: "?Q (?ps ! i)" by (simp add: pi b(2))
  from filter_head_in_prefix [of ?Q ?ps e "filter ?Q rest" i, OF fq il qi]
  have "e \<in> set (take (Suc i) ?ps)" .
  then obtain j where j: "j < Suc i" "j < length ?ps" "e = ?ps ! j"
    by (auto simp: in_set_conv_nth)
  then have "fst e = j" by (simp add: nth_enumerate_eq)
  with j(1) lower have "fst e = i" by simp
  with b ix show ?thesis by blast
qed

lemma crossing_f_None:
  assumes "find (\<lambda>e. match_condition_f sd (price_f (snd e)) (Num prc))
             (sort_opposite_f sd (enumerate 0 (map to_f opp))) = None"
  shows "crossing sd prc opp = None"
  using crossing_f_option [of sd prc opp] assms by simp

lemma match_loop_f_stop:
  assumes "\<not> (rem > 0 \<and> matched \<and> opp \<noteq> [])"
  shows "match_loop_f symb sd usr prc opp rem matched trades = Inr (opp, rem, trades)"
proof -
  from assms have c: "(rem > 0 \<and> matched \<and> length opp > 0) = False" by simp
  show ?thesis by (subst match_loop_f.simps) (simp only: c if_False)
qed

lemma match_loop_f_none:
  assumes "rem > 0" "opp \<noteq> []" "crossing_f sd prc opp = None"
  shows "match_loop_f symb sd usr prc opp rem True trades = Inr (opp, rem, trades)"
proof -
  have "match_loop_f symb sd usr prc opp rem True trades =
          match_loop_f symb sd usr prc opp rem False trades"
    using assms by (subst match_loop_f.simps) simp
  also have "\<dots> = Inr (opp, rem, trades)"
    by (rule match_loop_f_stop) simp
  finally show ?thesis .
qed

lemma match_loop_f_pop:
  assumes "rem > 0" "crossing_f sd prc opp = Some e" "index_of opp (snd e) = Inr i"
    "quantity_f (snd e) \<le> rem"
  shows "match_loop_f symb sd usr prc opp rem True trades =
           match_loop_f symb sd usr prc (take i opp @ drop (Suc i) opp)
             (rem - quantity_f (snd e)) True
             (trades @ [trade_info_f symb sd usr (snd e) (quantity_f (snd e))])"
proof -
  from index_of_Inr [OF assms(3)] have i: "i < length opp" by simp
  then have ne: "opp \<noteq> []" by auto
  from i have p: "pop opp i = Inr (take i opp @ drop (Suc i) opp)" by (simp add: pop_def)
  show ?thesis
  proof (cases "quantity_f (snd e) = rem")
    case True
    with assms ne p show ?thesis by (subst match_loop_f.simps) simp
  next
    case False
    with assms(4) have "\<not> quantity_f (snd e) > rem" by simp
    with False assms ne p show ?thesis by (subst match_loop_f.simps) simp
  qed
qed

lemma match_loop_f_upd:
  assumes "rem > 0" "crossing_f sd prc opp = Some e" "index_of opp (snd e) = Inr i"
    "quantity_f (snd e) > rem"
  shows "match_loop_f symb sd usr prc opp rem True trades =
           Inr (opp[fst e := (snd e)\<lparr>quantity_f := quantity_f (snd e) - rem\<rparr>], 0,
                trades @ [trade_info_f symb sd usr (snd e) rem])"
proof -
  from index_of_Inr [OF assms(3)] have i: "i < length opp" by simp
  then have ne: "opp \<noteq> []" by auto
  from assms(4) have neq: "quantity_f (snd e) \<noteq> rem" by simp
  have "match_loop_f symb sd usr prc opp rem True trades =
          match_loop_f symb sd usr prc
            (opp[fst e := (snd e)\<lparr>quantity_f := quantity_f (snd e) - rem\<rparr>]) 0 True
            (trades @ [trade_info_f symb sd usr (snd e) rem])"
    using assms ne neq by (subst match_loop_f.simps) simp
  also have "\<dots> = Inr (opp[fst e := (snd e)\<lparr>quantity_f := quantity_f (snd e) - rem\<rparr>], 0,
                trades @ [trade_info_f symb sd usr (snd e) rem])"
    by (rule match_loop_f_stop) simp
  finally show ?thesis .
qed

lemma to_f_quantity_update:
  "(to_f b)\<lparr>quantity_f := q\<rparr> = to_f (b\<lparr>quantity := q\<rparr>)"
  by (simp add: to_f_def)

lemma match_loop_sim:
  "match_loop_f symb sd usr (Num prc) (map to_f opp) rem True (map trade_to_f trades) =
     (case match_loop symb sd usr prc opp rem True trades of
        Inl err \<Rightarrow> Inl err
      | Inr (opp', rem', ts) \<Rightarrow> Inr (map to_f opp', rem', map trade_to_f ts))"
proof (induction "length opp" arbitrary: opp rem trades rule: less_induct)
  case less
  show ?case
  proof (cases "rem > 0 \<and> opp \<noteq> []")
    case False
    then have a: "\<not> (rem > 0 \<and> True \<and> opp \<noteq> [])"
      and b: "\<not> (rem > 0 \<and> True \<and> map to_f opp \<noteq> [])" by simp_all
    from match_loop_stop [OF a] match_loop_f_stop [OF b] show ?thesis by simp
  next
    case go: True
    then have r: "rem > 0" and ne: "opp \<noteq> []" and nef: "map to_f opp \<noteq> []" by simp_all
    show ?thesis
    proof (cases "crossing_f sd (Num prc) (map to_f opp)")
      case None
      from crossing_f_None [OF None] have n: "crossing sd prc opp = None" .
      from match_loop_none [OF r ne n] match_loop_f_none [OF r nef None]
      show ?thesis by simp
    next
      case (Some e)
      from crossing_f_Some [OF Some] obtain b i where
        c: "crossing sd prc opp = Some b" and eb: "snd e = to_f b"
        and ix: "index_of opp b = Inr i" and fe: "fst e = i"
        by blast
      from index_of_Inr [OF ix] have il: "i < length opp" by simp
      have ixf: "index_of (map to_f opp) (snd e) = Inr i"
        unfolding eb index_of_map_to_f by (rule ix)
      show ?thesis
      proof (cases "quantity b \<le> rem")
        case True
        then have qf: "quantity_f (snd e) \<le> rem" by (simp add: eb)
        have len: "length (take i opp @ drop (Suc i) opp) < length opp" using il by simp
        have "match_loop_f symb sd usr (Num prc) (map to_f opp) rem True (map trade_to_f trades) =
            match_loop_f symb sd usr (Num prc) (map to_f (take i opp @ drop (Suc i) opp))
              (rem - quantity b) True
              (map trade_to_f (trades @ [trade_info symb sd usr b (quantity b)]))"
          using match_loop_f_pop [OF r Some ixf qf, of symb usr "map trade_to_f trades"]
          by (simp add: eb take_map drop_map trade_info_f_to_f)
        also have "\<dots> = (case match_loop symb sd usr prc (take i opp @ drop (Suc i) opp)
                               (rem - quantity b) True
                               (trades @ [trade_info symb sd usr b (quantity b)]) of
              Inl err \<Rightarrow> Inl err
            | Inr (opp', rem', ts) \<Rightarrow> Inr (map to_f opp', rem', map trade_to_f ts))"
          by (rule less.hyps [OF len])
        also have "match_loop symb sd usr prc (take i opp @ drop (Suc i) opp)
                               (rem - quantity b) True
                               (trades @ [trade_info symb sd usr b (quantity b)]) =
              match_loop symb sd usr prc opp rem True trades"
          by (rule match_loop_pop [OF r c ix True, symmetric])
        finally show ?thesis .
      next
        case False
        then have gt: "quantity b > rem" by simp
        then have gtf: "quantity_f (snd e) > rem" by (simp add: eb)
        from match_loop_f_upd [OF r Some ixf gtf, of symb usr "map trade_to_f trades"]
        have "match_loop_f symb sd usr (Num prc) (map to_f opp) rem True (map trade_to_f trades)
            = Inr (map to_f (opp[i := b\<lparr>quantity := quantity b - rem\<rparr>]), 0,
                   map trade_to_f (trades @ [trade_info symb sd usr b rem]))"
          by (simp add: eb fe map_update to_f_quantity_update trade_info_f_to_f)
        with match_loop_upd [OF r c ix gt, of symb usr trades] show ?thesis by simp
      qed
    qed
  qed
qed

lemma books_to_f_init:
  "init_symbol_if_needed_f (books_to_f obs) s = books_to_f (init_symbol_if_needed obs s)"
  by (auto simp: init_symbol_if_needed_f_def init_symbol_if_needed_def books_to_f_def
      book_to_f_def fun_eq_iff domIff)

lemma books_to_f_upd:
  "(books_to_f obs)(s \<mapsto> book_to_f bk) = books_to_f (obs(s \<mapsto> bk))"
  by (auto simp: books_to_f_def fun_eq_iff)

lemma new_order_f_to_f: "new_order_f (to_f ord) r = to_f (new_order ord r)"
  by (simp add: new_order_f_def new_order_def to_f_def)

text \<open>
  On orders and books whose prices are numbers the two embeddings run in step: the second
  one, fed the orders of the first, returns the registry and the trades of the first.
\<close>

theorem numeric_prices_agree:
  "on_order_received_f (books_to_f obs) (to_f ord) =
     (case on_order_received obs ord of
        Inl err \<Rightarrow> Inl err
      | Inr (obs', ts) \<Rightarrow> Inr (books_to_f obs', map trade_to_f ts))"
proof -
  obtain bk where bk: "init_symbol_if_needed obs (symbol ord) (symbol ord) = Some bk"
    using init_symbol_lookup [of obs "symbol ord"] by (elim exE)
  let ?opp = "if side ord = ''BUY'' then sell bk else buy bk"
  let ?same = "if side ord = ''BUY'' then buy bk else sell bk"
  obtain opp' rem' ts where loop:
    "match_loop (symbol ord) (side ord) (username ord) (price ord) ?opp (quantity ord) True [] =
       Inr (opp', rem', ts)"
    using match_loop_total [of "symbol ord" "side ord" "username ord" "price ord" ?opp
        "quantity ord" True "[]"] by (elim exE)
  from match_loop_sim [of "symbol ord" "side ord" "username ord" "price ord" ?opp
      "quantity ord" "[]"] loop
  have loopf: "match_loop_f (symbol ord) (side ord) (username ord) (Num (price ord))
      (map to_f ?opp) (quantity ord) True [] = Inr (map to_f opp', rem', map trade_to_f ts)"
    by simp
  let ?same' = "if rem' > 0 then rest_order (side ord) ?same (new_order ord rem') else ?same"
  let ?bk' = "if side ord = ''BUY'' then \<lparr>buy = ?same', sell = opp'\<rparr>
              else \<lparr>buy = opp', sell = ?same'\<rparr>"
  have lhs: "on_order_received obs ord =
      Inr ((init_symbol_if_needed obs (symbol ord))(symbol ord \<mapsto> ?bk'), ts)"
    using bk loop by (simp add: on_order_received_def Let_def)
  have sel: "symbol_f (to_f ord) = symbol ord" "side_f (to_f ord) = side ord"
    "username_f (to_f ord) = username ord" "price_f (to_f ord) = Num (price ord)"
    "quantity_f (to_f ord) = quantity ord"
    by (simp_all add: to_f_def)
  have bkf: "init_symbol_if_needed_f (books_to_f obs) (symbol ord) (symbol ord) =
      Some (book_to_f bk)"
    unfolding books_to_f_init using bk by (simp add: books_to_f_def)
  have oppf: "(if side ord = ''BUY'' then sell_f (book_to_f bk) else buy_f (book_to_f bk)) =
      map to_f ?opp" by (simp add: book_to_f_def)
  have samef: "(if side ord = ''BUY'' then buy_f (book_to_f bk) else sell_f (book_to_f bk)) =
      map to_f ?same" by (simp add: book_to_f_def)
  have same'f: "(if rem' > 0
        then rest_order_f (side ord) (map to_f ?same) (new_order_f (to_f ord) rem')
        else map to_f ?same) = map to_f ?same'"
    by (simp add: new_order_f_to_f rest_order_f_to_f)
  have bk'f: "(if side ord = ''BUY''
                then \<lparr>buy_f = map to_f ?same', sell_f = map to_f opp'\<rparr>
                else \<lparr>buy_f = map to_f opp', sell_f = map to_f ?same'\<rparr>) = book_to_f ?bk'"
    by (simp add: book_to_f_def)
  have "on_order_received_f (books_to_f obs) (to_f ord) =
      Inr ((init_symbol_if_needed_f (books_to_f obs) (symbol ord))
             (symbol ord \<mapsto> book_to_f ?bk'), map trade_to_f ts)"
    by (simp only: on_order_received_f_def Let_def sel bkf option.case oppf samef
        loopf sum.case prod.case same'f bk'f)
  also have "(init_symbol_if_needed_f (books_to_f obs) (symbol ord))
             (symbol ord \<mapsto> book_to_f ?bk') =
      books_to_f ((init_symbol_if_needed obs (symbol ord))(symbol ord \<mapsto> ?bk'))"
    by (simp only: books_to_f_init books_to_f_upd)
  finally show ?thesis using lhs by simp
qed

lemma books_to_f_empty: "books_to_f Map.empty = Map.empty"
  by (simp add: books_to_f_def)

theorem numeric_runs_agree:
  "consume_f (books_to_f obs) (map to_f ords) =
     (case consume obs ords of
        Inl err \<Rightarrow> Inl err
      | Inr (obs', ts) \<Rightarrow> Inr (books_to_f obs', map trade_to_f ts))"
proof (induction ords arbitrary: obs)
  case Nil
  show ?case by simp
next
  case (Cons ord ords)
  show ?case
  proof (cases "on_order_received obs ord")
    case (Inl err)
    with numeric_prices_agree [of obs ord] show ?thesis by simp
  next
    case (Inr res)
    obtain obs1 ts1 where res: "res = (obs1, ts1)" by (cases res)
    from numeric_prices_agree [of obs ord] Inr res
    have f: "on_order_received_f (books_to_f obs) (to_f ord) =
        Inr (books_to_f obs1, map trade_to_f ts1)" by simp
    show ?thesis
    proof (cases "consume obs1 ords")
      case (Inl err)
      with Cons.IH [of obs1] f Inr res show ?thesis by simp
    next
      case inr: (Inr res2)
      obtain obs2 ts2 where res2: "res2 = (obs2, ts2)" by (cases res2)
      with Cons.IH [of obs1] f Inr res inr show ?thesis by simp
    qed
  qed
qed

section \<open>Orders with a NaN price\<close>

text \<open>
  The runs below are evaluated in the second embedding, in which a price may be NaN. Every
  comparison with NaN is false, so an order priced NaN never matches, and the sort leaves
  lists in an order that is no order of the prices.
\<close>

lemmas eval_defs_f = on_order_received_f_def init_symbol_if_needed_f_def match_loop_f.simps
  rest_order_f_def new_order_f_def py_sorted_def list_sort_def binary_insert_def bisect.simps
  sort_opposite_f_def match_condition_f_def pop_def trade_info_f_def Let_def

lemmas example_defs_f = ask_100_def ask_nan_def ask_99_def bid_nan_def ask_a_def ask_b_def
  ask_c_def ask_d_def ask_early_def ask_e_def ask_late_def bid_five_def

text \<open>
  Claim C2 as stated, for any orders, fails. From the empty registry the orders SELL 1 at
  100, SELL 1 at NaN and SELL 1 at 99 make no trade and leave the sell list in the order
  100, NaN, 99: every comparison of the sort is false, so it moves nothing, and the order
  at 99 rests behind the order at 100.
\<close>

theorem book_ordering_counterexample:
  "consume_f Map.empty [ask_100, ask_nan, ask_99] =
     Inr ([''AAPL'' \<mapsto> \<lparr>buy_f = [], sell_f = [ask_100, ask_nan, ask_99]\<rparr>], []) \<and>
   float_lt (price_f ask_99) (price_f ask_100)"
  by (simp add: eval_defs_f example_defs_f)

text \<open>
  Claim C4 as stated, for any orders, fails. From the empty registry the orders SELL 1 at
  100 and BUY 1 at NaN make no trade, since \<open>100 <= nan\<close> is false, and both rest: the
  book has one bid and one ask, and the bid price is not below the ask price.
\<close>

theorem no_cross_counterexample:
  "consume_f Map.empty [ask_100, bid_nan] =
     Inr ([''AAPL'' \<mapsto> \<lparr>buy_f = [bid_nan], sell_f = [ask_100]\<rparr>], []) \<and>
   \<not> float_lt (price_f bid_nan) (price_f ask_100)"
  by (simp add: eval_defs_f example_defs_f)

text \<open>
  Claim C5 as stated, with no condition on the other resting orders, fails. The sell orders
  a at 10, b at 20, c at 30, d at 200, n at NaN, A at 100, e at 300 and B at 100 arrive in
  this order, each for quantity 1. The binary insertion of B, misled by the NaN, puts it
  before d, so the sell list is a, b, c, B, d, n, A, e. The order BUY 5 at 100 then trades
  with a, b, c, B and A in this order: B, which arrived after A at the same price, is
  matched and depleted before A.
\<close>

theorem time_priority_counterexample:
  "consume_f Map.empty [ask_a, ask_b, ask_c, ask_d, ask_nan, ask_early, ask_e, ask_late] =
     Inr ([''AAPL'' \<mapsto>
            \<lparr>buy_f = [],
             sell_f = [ask_a, ask_b, ask_c, ask_late, ask_d, ask_nan, ask_early, ask_e]\<rparr>],
          []) \<and>
   consume_f Map.empty
     [ask_a, ask_b, ask_c, ask_d, ask_nan, ask_early, ask_e, ask_late, bid_five] =
     Inr ([''AAPL'' \<mapsto> \<lparr>buy_f = [], sell_f = [ask_d, ask_nan, ask_e]\<rparr>],
          [trade_info_f ''AAPL'' ''BUY'' ''z'' ask_a 1,
           trade_info_f ''AAPL'' ''BUY'' ''z'' ask_b 1,
           trade_info_f ''AAPL'' ''BUY'' ''z'' ask_c 1,
           trade_info_f ''AAPL'' ''BUY'' ''z'' ask_late 1,
           trade_info_f ''AAPL'' ''BUY'' ''z'' ask_early 1]) \<and>
   price_f ask_early = price_f ask_late"
  by (simp add: eval_defs_f example_defs_f)

end
